theory Spec2Isabelle
  imports Main "HOL-Library.Finite_Map" "HOL-Library.Word"
begin

section \<open>The core LRU store: \<^verbatim>\<open>lru_cache_using_std.h\<close>\<close>

text \<open>
  The class template \<^verbatim>\<open>lru_cache_using_std<K, V, MAP>\<close> is embedded as a record
  of its data members and one function per member function. The embedding is of the build
  in which \<^verbatim>\<open>assert\<close> is active (\<^verbatim>\<open>NDEBUG\<close> undefined), which is also the
  build that has the member \<^verbatim>\<open>_eval_counters\<close>.

  \<^item> \<^verbatim>\<open>_fn\<close> is a \<^verbatim>\<open>std::function\<close>; a call either returns a value or throws,
    so it is a function into \<open>'v option\<close>, \<open>None\<close> standing for a thrown exception.
  \<^item> \<^verbatim>\<open>_key_tracker\<close> is a \<^verbatim>\<open>std::list\<close> of keys. Each node of the list has an
    identity (the address that a list iterator holds), so the list is a list of pairs
    (node, key), least recently used at the front.
  \<^item> \<^verbatim>\<open>_key_to_value\<close> maps a key to its value and to an iterator into the list,
    that is, to a node identity. \<^verbatim>\<open>MAP\<close> is \<^verbatim>\<open>std::map\<close> or
    \<^verbatim>\<open>std::unordered_map\<close>; only \<^verbatim>\<open>find\<close>, \<^verbatim>\<open>insert\<close>, \<^verbatim>\<open>erase\<close> and
    \<^verbatim>\<open>size\<close> are used, so a finite map models both.
  \<^item> A failed \<^verbatim>\<open>assert\<close> aborts the process, a thrown exception leaves the call, and
    a dangling iterator is undefined behaviour: each is a value of \<open>error\<close>.
  \<^item> The \<^verbatim>\<open>size_t\<close> counters (the entries of \<^verbatim>\<open>_eval_counters\<close> and, in the
    coordinated cache, \<^verbatim>\<open>calls\<close>, \<^verbatim>\<open>hits\<close> and \<^verbatim>\<open>late_hits\<close>) are 64-bit
    words, \<^verbatim>\<open>size_t\<close> being taken as 64 bits wide: \<^verbatim>\<open>++\<close> wraps from
    \<open>2^64 - 1\<close> to 0. \<^verbatim>\<open>_capacity\<close> and the size of the map are only compared, never
    computed with, and are natural numbers.
\<close>

datatype error = AssertionFailed | ComputeFailed | UndefinedBehaviour

record ('k, 'v) lru_cache_using_std =
  fn :: "'k \<Rightarrow> 'v option"
  capacity :: nat
  key_tracker :: "(nat \<times> 'k) list"
  key_to_value :: "('k, 'v \<times> nat) fmap"
  eval_counters :: "('k, 64 word) fmap"

text \<open>The constructor (lines 59-67): \<^verbatim>\<open>assert(_capacity != 0)\<close>.\<close>

definition lru_cache_using_std :: "('k \<Rightarrow> 'v option) \<Rightarrow> nat \<Rightarrow> error + ('k, 'v) lru_cache_using_std" where
  "lru_cache_using_std f c =
     (if c = 0 then Inl AssertionFailed
      else Inr \<lparr>fn = f, capacity = c, key_tracker = [], key_to_value = fmempty,
                eval_counters = fmempty\<rparr>)"

text \<open>\<^verbatim>\<open>has\<close> (lines 136-138) and \<^verbatim>\<open>is_full\<close> (lines 178-180), both \<^verbatim>\<open>const\<close>.\<close>

definition has :: "('k, 'v) lru_cache_using_std \<Rightarrow> 'k \<Rightarrow> bool" where
  "has s k = (fmlookup (key_to_value s) k \<noteq> None)"

definition is_full :: "('k, 'v) lru_cache_using_std \<Rightarrow> bool" where
  "is_full s = (fcard (fmdom (key_to_value s)) \<ge> capacity s)"

text \<open>
  The node that \<^verbatim>\<open>_key_tracker.insert(_key_tracker.end(), k)\<close> allocates is distinct
  from every node of the list. Which one it is, is the allocator's choice; the model takes
  the successor of the largest node in use (the node of an erased record may come back),
  and the properties below use only that it is not in the list (\<open>fresh_node_notin\<close>).
\<close>

definition fresh_node :: "(nat \<times> 'k) list \<Rightarrow> nat" where
  "fresh_node t = Suc (foldr max (map fst t) 0)"

text \<open>
  \<^verbatim>\<open>_key_tracker.splice(_key_tracker.end(), _key_tracker, it)\<close> moves the node that
  \<open>it\<close> points to behind all others. An iterator that points to no node of the list is
  undefined behaviour.
\<close>

definition splice_end :: "(nat \<times> 'k) list \<Rightarrow> nat \<Rightarrow> error + (nat \<times> 'k) list" where
  "splice_end t it =
     (if it \<in> fst ` set t
      then Inr (filter (\<lambda>n. fst n \<noteq> it) t @ filter (\<lambda>n. fst n = it) t)
      else Inl UndefinedBehaviour)"

text \<open>\<^verbatim>\<open>std::find\<close> followed by \<^verbatim>\<open>erase\<close>: the first node holding the key goes.\<close>

fun erase_first :: "'k \<Rightarrow> (nat \<times> 'k) list \<Rightarrow> (nat \<times> 'k) list" where
  "erase_first key [] = []"
| "erase_first key (n # t) = (if snd n = key then t else n # erase_first key t)"

text \<open>The private \<^verbatim>\<open>evict()\<close> (lines 211-224) purges the least recently used record.\<close>

definition evict :: "('k, 'v) lru_cache_using_std \<Rightarrow> error + ('k, 'v) lru_cache_using_std" where
  "evict s =
     (case key_tracker s of
        [] \<Rightarrow> Inl AssertionFailed
      | n # rest \<Rightarrow>
          (case fmlookup (key_to_value s) (snd n) of
             None \<Rightarrow> Inl AssertionFailed
           | Some _ \<Rightarrow>
               Inr (s\<lparr>key_to_value := fmdrop (snd n) (key_to_value s), key_tracker := rest\<rparr>)))"

text \<open>
  The private \<^verbatim>\<open>insert\<close> (lines 185-208). \<^verbatim>\<open>MAP::insert\<close> leaves an existing entry
  alone; the assertion before it excludes that case.
\<close>

definition insert_kv ::
  "('k, 'v) lru_cache_using_std \<Rightarrow> 'k \<Rightarrow> 'v \<Rightarrow> error + ('k, 'v) lru_cache_using_std" where
  "insert_kv s k v =
     (if fmlookup (key_to_value s) k \<noteq> None then Inl AssertionFailed
      else case (if is_full s then evict s else Inr s) of
        Inl e \<Rightarrow> Inl e
      | Inr s1 \<Rightarrow>
          (let it = fresh_node (key_tracker s1)
           in Inr (s1\<lparr>key_tracker := key_tracker s1 @ [(it, k)],
                      key_to_value :=
                        (if fmlookup (key_to_value s1) k = None
                         then fmupd k (v, it) (key_to_value s1)
                         else key_to_value s1)\<rparr>)))"

text \<open>
  \<^verbatim>\<open>operator()\<close> (lines 70-118). An exception thrown by \<^verbatim>\<open>_fn\<close> leaves the call
  before anything was changed.
\<close>

definition bump_counter :: "('k, 64 word) fmap \<Rightarrow> 'k \<Rightarrow> ('k, 64 word) fmap" where
  "bump_counter c k =
     (case fmlookup c k of Some n \<Rightarrow> fmupd k (n + 1) c | None \<Rightarrow> fmupd k 1 c)"

definition operator_call ::
  "('k, 'v) lru_cache_using_std \<Rightarrow> 'k \<Rightarrow> error + ('v \<times> ('k, 'v) lru_cache_using_std)" where
  "operator_call s k =
     (case fmlookup (key_to_value s) k of
        None \<Rightarrow>
          (case fn s k of
             None \<Rightarrow> Inl ComputeFailed
           | Some v \<Rightarrow>
               (case insert_kv s k v of
                  Inl e \<Rightarrow> Inl e
                | Inr s1 \<Rightarrow>
                    Inr (v, s1\<lparr>eval_counters := bump_counter (eval_counters s1) k\<rparr>)))
      | Some (v, it) \<Rightarrow>
          (case splice_end (key_tracker s) it of
             Inl e \<Rightarrow> Inl e
           | Inr t \<Rightarrow> Inr (v, s\<lparr>key_tracker := t\<rparr>)))"

text \<open>\<^verbatim>\<open>get_keys\<close> (lines 123-129): the cached keys, most recently used first.\<close>

definition get_keys :: "('k, 'v) lru_cache_using_std \<Rightarrow> 'k list" where
  "get_keys s = rev (map snd (key_tracker s))"

text \<open>\<^verbatim>\<open>set\<close> (lines 141-159).\<close>

definition set_value ::
  "('k, 'v) lru_cache_using_std \<Rightarrow> 'k \<Rightarrow> 'v \<Rightarrow> error + ('k, 'v) lru_cache_using_std" where
  "set_value s k v =
     (case fmlookup (key_to_value s) k of
        None \<Rightarrow> insert_kv s k v
      | Some _ \<Rightarrow> Inr s)"

text \<open>The public \<^verbatim>\<open>evict(key)\<close> (lines 163-176).\<close>

definition evict_key ::
  "('k, 'v) lru_cache_using_std \<Rightarrow> 'k \<Rightarrow> error + ('k, 'v) lru_cache_using_std" where
  "evict_key s key =
     (case fmlookup (key_to_value s) key of
        None \<Rightarrow> Inr s
      | Some _ \<Rightarrow>
          (if key \<in> snd ` set (key_tracker s)
           then Inr (s\<lparr>key_to_value := fmdrop key (key_to_value s),
                       key_tracker := erase_first key (key_tracker s)\<rparr>)
           else Inl AssertionFailed))"

subsection \<open>Sequences of operations on the store\<close>

text \<open>
  A client of the store calls its public member functions one after the other. An exception
  thrown by \<^verbatim>\<open>_fn\<close> inside \<^verbatim>\<open>operator()\<close> reaches the client with the store as it
  was, and the client may go on; a failed assertion ends the run.
\<close>

datatype ('k, 'v) op =
  Op_call 'k | Op_has 'k | Op_set 'k 'v | Op_evict 'k | Op_is_full | Op_get_keys

datatype ('k, 'v) ret = Ret_value 'v | Ret_bool bool | Ret_unit | Ret_keys "'k list"

fun apply_op ::
  "('k, 'v) lru_cache_using_std \<Rightarrow> ('k, 'v) op \<Rightarrow>
     error + (('k, 'v) ret \<times> ('k, 'v) lru_cache_using_std)" where
  "apply_op s (Op_call k) =
     (case operator_call s k of Inl e \<Rightarrow> Inl e | Inr (v, s') \<Rightarrow> Inr (Ret_value v, s'))"
| "apply_op s (Op_has k) = Inr (Ret_bool (has s k), s)"
| "apply_op s (Op_set k v) =
     (case set_value s k v of Inl e \<Rightarrow> Inl e | Inr s' \<Rightarrow> Inr (Ret_unit, s'))"
| "apply_op s (Op_evict k) =
     (case evict_key s k of Inl e \<Rightarrow> Inl e | Inr s' \<Rightarrow> Inr (Ret_unit, s'))"
| "apply_op s Op_is_full = Inr (Ret_bool (is_full s), s)"
| "apply_op s Op_get_keys = Inr (Ret_keys (get_keys s), s)"

fun run_ops ::
  "('k, 'v) lru_cache_using_std \<Rightarrow> ('k, 'v) op list \<Rightarrow> error + ('k, 'v) lru_cache_using_std" where
  "run_ops s [] = Inr s"
| "run_ops s (x # xs) =
     (case apply_op s x of
        Inl ComputeFailed \<Rightarrow> run_ops s xs
      | Inl e \<Rightarrow> Inl e
      | Inr (r, s') \<Rightarrow> run_ops s' xs)"

text \<open>
  The representation invariant of the store: the nodes of the list are distinct, no key is
  in two nodes, the keys of the list are the keys of the map, every entry of the map holds
  the node of its key, and the list is no longer than the capacity.
\<close>

definition invar :: "('k, 'v) lru_cache_using_std \<Rightarrow> bool" where
  "invar s \<longleftrightarrow>
     0 < capacity s \<and>
     distinct (map fst (key_tracker s)) \<and>
     distinct (map snd (key_tracker s)) \<and>
     snd ` set (key_tracker s) = fmdom' (key_to_value s) \<and>
     (\<forall>n \<in> set (key_tracker s). \<exists>v. fmlookup (key_to_value s) (snd n) = Some (v, fst n)) \<and>
     length (key_tracker s) \<le> capacity s"

section \<open>The coordinated cache: \<^verbatim>\<open>shared_lru_cache_using_std.h\<close>\<close>

text \<open>
  The data members of \<^verbatim>\<open>shared_lru_cache_using_std\<close>, without its three mutexes
  \<^verbatim>\<open>_underlying_lru_cache_mutex\<close>, \<^verbatim>\<open>_is_being_evaluated_mutex\<close> and
  \<^verbatim>\<open>_hit_rate_mutex\<close>: what they guard is modelled as atomic (see below). The
  \<^verbatim>\<open>std::shared_ptr<std::mutex>\<close> of a ticket is the identity of the mutex it points
  to; mutexes are numbered in the order of their allocation.
\<close>

type_synonym thread_id = nat

record is_being_evaluated =
  mutex :: nat
  active_threads :: "thread_id set"

record hit_rate =
  calls :: "64 word"
  hits :: "64 word"
  late_hits :: "64 word"

record ('k, 'v) shared_lru_cache_using_std =
  underlying_lru_cache :: "('k, 'v) lru_cache_using_std"
  shared_fn :: "'k \<Rightarrow> 'v option"
  is_being_evaluated :: "('k, is_being_evaluated) fmap"
  hit_rate :: hit_rate

text \<open>The constructor (lines 43-50) hands \<open>f\<close> and \<open>c\<close> to the underlying store.\<close>

definition shared_lru_cache_using_std ::
  "('k \<Rightarrow> 'v option) \<Rightarrow> nat \<Rightarrow> error + ('k, 'v) shared_lru_cache_using_std" where
  "shared_lru_cache_using_std f c =
     (case lru_cache_using_std f c of
        Inl e \<Rightarrow> Inl e
      | Inr u \<Rightarrow>
          Inr \<lparr>underlying_lru_cache = u, shared_fn = f, is_being_evaluated = fmempty,
               hit_rate = \<lparr>calls = 0, hits = 0, late_hits = 0\<rparr>\<rparr>)"

subsection \<open>The critical sections of \<^verbatim>\<open>operator()\<close>\<close>

text \<open>
  Lines 54-68, under the guard of the store: a hit is counted and answered by the store's
  \<^verbatim>\<open>operator()\<close>; otherwise only the call is counted. The result is the value on a hit.
\<close>

definition fast_path ::
  "('k, 'v) shared_lru_cache_using_std \<Rightarrow> 'k \<Rightarrow>
     error + ('v option \<times> ('k, 'v) shared_lru_cache_using_std)" where
  "fast_path c k =
     (if has (underlying_lru_cache c) k
      then (let h = hit_rate c; h1 = h\<lparr>calls := calls h + 1\<rparr>; h2 = h1\<lparr>hits := hits h1 + 1\<rparr>
            in case operator_call (underlying_lru_cache c) k of
                 Inl e \<Rightarrow> Inl e
               | Inr (v, u) \<Rightarrow> Inr (Some v, c\<lparr>hit_rate := h2, underlying_lru_cache := u\<rparr>))
      else (let h = hit_rate c
            in Inr (None, c\<lparr>hit_rate := h\<lparr>calls := calls h + 1\<rparr>\<rparr>)))"

text \<open>
  Lines 74-84, under the guard of the registry: the ticket of \<open>k\<close> is found or created
  (with the mutex \<open>m_new\<close>, just allocated), and the calling thread joins it. The result
  is the mutex of the ticket.
\<close>

definition enter_evaluation ::
  "('k, 'v) shared_lru_cache_using_std \<Rightarrow> nat \<Rightarrow> thread_id \<Rightarrow> 'k \<Rightarrow>
     error + (nat \<times> ('k, 'v) shared_lru_cache_using_std)" where
  "enter_evaluation c m_new this_thread_id k =
     (let i = (case fmlookup (is_being_evaluated c) k of
                 None \<Rightarrow> \<lparr>mutex = m_new, active_threads = {}\<rparr>
               | Some i \<Rightarrow> i)
      in if this_thread_id \<in> active_threads i then Inl AssertionFailed
         else Inr (mutex i,
                   c\<lparr>is_being_evaluated :=
                       fmupd k (i\<lparr>active_threads := insert this_thread_id (active_threads i)\<rparr>)
                         (is_being_evaluated c)\<rparr>))"

text \<open>
  The lambda \<^verbatim>\<open>done\<close> (lines 86-94), under the guard of the registry. It dereferences
  the result of \<^verbatim>\<open>find\<close> unchecked.
\<close>

definition done_evaluation ::
  "('k, 'v) shared_lru_cache_using_std \<Rightarrow> thread_id \<Rightarrow> 'k \<Rightarrow>
     error + ('k, 'v) shared_lru_cache_using_std" where
  "done_evaluation c this_thread_id k =
     (case fmlookup (is_being_evaluated c) k of
        None \<Rightarrow> Inl UndefinedBehaviour
      | Some i \<Rightarrow>
          if this_thread_id \<notin> active_threads i then Inl AssertionFailed
          else (let a = active_threads i - {this_thread_id}
                in if a = {}
                   then Inr (c\<lparr>is_being_evaluated := fmdrop k (is_being_evaluated c)\<rparr>)
                   else Inr (c\<lparr>is_being_evaluated :=
                                fmupd k (i\<lparr>active_threads := a\<rparr>) (is_being_evaluated c)\<rparr>)))"

text \<open>
  Lines 97-108, under the guard of the store and with the mutex of the key held: if the key
  has arrived, the value is fetched, the thread leaves the ticket and a late hit is counted.
\<close>

definition recheck ::
  "('k, 'v) shared_lru_cache_using_std \<Rightarrow> thread_id \<Rightarrow> 'k \<Rightarrow>
     error + ('v option \<times> ('k, 'v) shared_lru_cache_using_std)" where
  "recheck c this_thread_id k =
     (if has (underlying_lru_cache c) k
      then (case operator_call (underlying_lru_cache c) k of
              Inl e \<Rightarrow> Inl e
            | Inr (v, u) \<Rightarrow>
                (case done_evaluation (c\<lparr>underlying_lru_cache := u\<rparr>) this_thread_id k of
                   Inl e \<Rightarrow> Inl e
                 | Inr c1 \<Rightarrow>
                     (let h = hit_rate c1
                      in Inr (Some v, c1\<lparr>hit_rate := h\<lparr>late_hits := late_hits h + 1\<rparr>\<rparr>))))
      else Inr (None, c))"

text \<open>Lines 112-116, under the guard of the store.\<close>

definition publish ::
  "('k, 'v) shared_lru_cache_using_std \<Rightarrow> 'k \<Rightarrow> 'v \<Rightarrow>
     error + ('k, 'v) shared_lru_cache_using_std" where
  "publish c k v =
     (if has (underlying_lru_cache c) k then Inl AssertionFailed
      else case set_value (underlying_lru_cache c) k v of
             Inl e \<Rightarrow> Inl e
           | Inr u \<Rightarrow> Inr (c\<lparr>underlying_lru_cache := u\<rparr>))"

subsection \<open>Threads\<close>

text \<open>
  Several threads run \<^verbatim>\<open>operator()\<close> on one cache. Each critical section above runs
  under a guard that excludes the others on the same data, so each is one atomic step of
  the thread that runs it. Two sections take a second guard inside the first: lines 54-68
  update the counters under the guard of the store, and lines 97-108 call \<^verbatim>\<open>done\<close> and
  update the counters under it. Each of the three guards protects data that no section
  touches without it, and no thread waits for the guard of the store while it holds one of
  the other two, so a nested section takes effect as a whole. \<^verbatim>\<open>_fn(k)\<close>, which the
  model takes to be a pure function that does not call the cache, is a step; and so are
  locking and unlocking the mutex of the key (the unlocking is the destructor of
  \<^verbatim>\<open>evaluation_guard\<close>, which also runs when \<^verbatim>\<open>_fn\<close> throws). A thread is outside
  \<^verbatim>\<open>operator()\<close> or before one of its lines, with the values of its local variables
  \<open>k\<close>, \<open>key_specific_mutex\<close> and \<open>v\<close>.
\<close>

datatype ('k, 'v) position =
  Outside
| Line_70 'k
| Line_96 'k nat
| Line_97 'k nat
| Line_110 'k nat
| Line_112 'k nat 'v
| Line_118 'k nat 'v
| Line_119 nat 'v

record ('k, 'v) world =
  cache :: "('k, 'v) shared_lru_cache_using_std"
  mutex_owner :: "(nat, thread_id) fmap"
  mutexes_allocated :: nat
  position :: "thread_id \<Rightarrow> ('k, 'v) position"

definition new_world :: "('k \<Rightarrow> 'v option) \<Rightarrow> nat \<Rightarrow> error + ('k, 'v) world" where
  "new_world f c =
     (case shared_lru_cache_using_std f c of
        Inl e \<Rightarrow> Inl e
      | Inr sc \<Rightarrow>
          Inr \<lparr>cache = sc, mutex_owner = fmempty, mutexes_allocated = 0,
               position = (\<lambda>t. Outside)\<rparr>)"

text \<open>
  A schedule is a list of actions: a thread that is outside calls \<^verbatim>\<open>operator()(k)\<close>
  and runs lines 54-68, or a thread inside takes its next step. What a step did is an event.
\<close>

datatype 'k action = Request thread_id 'k | Advance thread_id

datatype 'v event =
  Ev_hit 'v
| Ev_miss
| Ev_registered
| Ev_locked
| Ev_late_hit 'v
| Ev_recheck_miss
| Ev_computed 'v
| Ev_threw
| Ev_published
| Ev_deregistered
| Ev_returned 'v

datatype ('k, 'v) step_result =
  Not_enabled
| Abort error
| Next "'v event" "('k, 'v) world"

definition move :: "('k, 'v) world \<Rightarrow> thread_id \<Rightarrow> ('k, 'v) position \<Rightarrow> ('k, 'v) world" where
  "move w t p = w\<lparr>position := (position w)(t := p)\<rparr>"

definition request :: "('k, 'v) world \<Rightarrow> thread_id \<Rightarrow> 'k \<Rightarrow> ('k, 'v) step_result" where
  "request w t k =
     (case fast_path (cache w) k of
        Inl e \<Rightarrow> Abort e
      | Inr (Some v, c) \<Rightarrow> Next (Ev_hit v) (w\<lparr>cache := c\<rparr>)
      | Inr (None, c) \<Rightarrow> Next Ev_miss (move (w\<lparr>cache := c\<rparr>) t (Line_70 k)))"

fun advance ::
  "('k, 'v) world \<Rightarrow> thread_id \<Rightarrow> ('k, 'v) position \<Rightarrow> ('k, 'v) step_result" where
  "advance w t Outside = Not_enabled"
| "advance w t (Line_70 k) =
     (case enter_evaluation (cache w) (mutexes_allocated w) t k of
        Inl e \<Rightarrow> Abort e
      | Inr (m, c) \<Rightarrow>
          Next Ev_registered
            (move (w\<lparr>cache := c,
                     mutexes_allocated :=
                       (if fmlookup (is_being_evaluated (cache w)) k = None
                        then Suc (mutexes_allocated w) else mutexes_allocated w)\<rparr>)
               t (Line_96 k m)))"
| "advance w t (Line_96 k m) =
     (case fmlookup (mutex_owner w) m of
        Some owner \<Rightarrow> Not_enabled
      | None \<Rightarrow>
          Next Ev_locked (move (w\<lparr>mutex_owner := fmupd m t (mutex_owner w)\<rparr>) t (Line_97 k m)))"
| "advance w t (Line_97 k m) =
     (case recheck (cache w) t k of
        Inl e \<Rightarrow> Abort e
      | Inr (Some v, c) \<Rightarrow> Next (Ev_late_hit v) (move (w\<lparr>cache := c\<rparr>) t (Line_119 m v))
      | Inr (None, c) \<Rightarrow> Next Ev_recheck_miss (move w t (Line_110 k m)))"
| "advance w t (Line_110 k m) =
     (case shared_fn (cache w) k of
        None \<Rightarrow>
          Next Ev_threw (move (w\<lparr>mutex_owner := fmdrop m (mutex_owner w)\<rparr>) t Outside)
      | Some v \<Rightarrow> Next (Ev_computed v) (move w t (Line_112 k m v)))"
| "advance w t (Line_112 k m v) =
     (case publish (cache w) k v of
        Inl e \<Rightarrow> Abort e
      | Inr c \<Rightarrow> Next Ev_published (move (w\<lparr>cache := c\<rparr>) t (Line_118 k m v)))"
| "advance w t (Line_118 k m v) =
     (case done_evaluation (cache w) t k of
        Inl e \<Rightarrow> Abort e
      | Inr c \<Rightarrow> Next Ev_deregistered (move (w\<lparr>cache := c\<rparr>) t (Line_119 m v)))"
| "advance w t (Line_119 m v) =
     Next (Ev_returned v) (move (w\<lparr>mutex_owner := fmdrop m (mutex_owner w)\<rparr>) t Outside)"

fun step :: "('k, 'v) world \<Rightarrow> 'k action \<Rightarrow> ('k, 'v) step_result" where
  "step w (Request t k) = (if position w t = Outside then request w t k else Not_enabled)"
| "step w (Advance t) = advance w t (position w t)"

datatype ('k, 'v) run_result =
  Stuck
| Crashed error
| Finished "'v event list" "('k, 'v) world"

fun run :: "('k, 'v) world \<Rightarrow> 'k action list \<Rightarrow> ('k, 'v) run_result" where
  "run w [] = Finished [] w"
| "run w (a # as) =
     (case step w a of
        Not_enabled \<Rightarrow> Stuck
      | Abort e \<Rightarrow> Crashed e
      | Next ev w1 \<Rightarrow>
          (case run w1 as of
             Finished evs w2 \<Rightarrow> Finished (ev # evs) w2
           | r \<Rightarrow> r))"

text \<open>
  A thread has been counted in \<^verbatim>\<open>calls\<close> but in no other counter, and has not yet
  published, exactly when it is before one of the lines 70 to 112.
\<close>

fun pending :: "('k, 'v) position \<Rightarrow> bool" where
  "pending (Line_70 k) = True"
| "pending (Line_96 k m) = True"
| "pending (Line_97 k m) = True"
| "pending (Line_110 k m) = True"
| "pending (Line_112 k m v) = True"
| "pending p = False"

text \<open>
  What a thread's place in \<^verbatim>\<open>operator()\<close> says about the shared data: whether it is
  in a ticket (and for which key, through which mutex), which mutex it holds, and for which
  key it is between the re-check that missed and the publication. The invariant of the
  threads ties these to the registry, to the owners of the mutexes and to the store.
\<close>

definition in_ticket :: "('k, 'v) shared_lru_cache_using_std \<Rightarrow> thread_id \<Rightarrow> 'k \<Rightarrow> bool" where
  "in_ticket c t k =
     (case fmlookup (is_being_evaluated c) k of None \<Rightarrow> False | Some i \<Rightarrow> t \<in> active_threads i)"

definition ticket_mutex :: "('k, 'v) shared_lru_cache_using_std \<Rightarrow> 'k \<Rightarrow> nat option" where
  "ticket_mutex c k = map_option mutex (fmlookup (is_being_evaluated c) k)"

fun registered_for :: "('k, 'v) position \<Rightarrow> ('k \<times> nat) option" where
  "registered_for (Line_96 k m) = Some (k, m)"
| "registered_for (Line_97 k m) = Some (k, m)"
| "registered_for (Line_110 k m) = Some (k, m)"
| "registered_for (Line_112 k m v) = Some (k, m)"
| "registered_for (Line_118 k m v) = Some (k, m)"
| "registered_for p = None"

fun holds :: "('k, 'v) position \<Rightarrow> nat option" where
  "holds (Line_97 k m) = Some m"
| "holds (Line_110 k m) = Some m"
| "holds (Line_112 k m v) = Some m"
| "holds (Line_118 k m v) = Some m"
| "holds (Line_119 m v) = Some m"
| "holds p = None"

fun computing :: "('k, 'v) position \<Rightarrow> 'k option" where
  "computing (Line_110 k m) = Some k"
| "computing (Line_112 k m v) = Some k"
| "computing p = None"

definition world_invar :: "('k, 'v) world \<Rightarrow> bool" where
  "world_invar w \<longleftrightarrow>
     invar (underlying_lru_cache (cache w)) \<and>
     (\<forall>t k. in_ticket (cache w) t k \<longleftrightarrow> (\<exists>m. registered_for (position w t) = Some (k, m))) \<and>
     (\<forall>t k m. registered_for (position w t) = Some (k, m) \<longrightarrow> ticket_mutex (cache w) k = Some m) \<and>
     (\<forall>t m. fmlookup (mutex_owner w) m = Some t \<longleftrightarrow> holds (position w t) = Some m) \<and>
     (\<forall>t k. computing (position w t) = Some k \<longrightarrow> \<not> has (underlying_lru_cache (cache w)) k)"

text \<open>
  What the step behind an event adds to each of the three counters, and whether it makes a
  thread pending or ends its being pending.
\<close>

fun calls_inc :: "'v event \<Rightarrow> nat" where
  "calls_inc (Ev_hit v) = 1"
| "calls_inc Ev_miss = 1"
| "calls_inc ev = 0"

fun hits_inc :: "'v event \<Rightarrow> nat" where
  "hits_inc (Ev_hit v) = 1"
| "hits_inc ev = 0"

fun late_hits_inc :: "'v event \<Rightarrow> nat" where
  "late_hits_inc (Ev_late_hit v) = 1"
| "late_hits_inc ev = 0"

fun pending_inc :: "'v event \<Rightarrow> nat" where
  "pending_inc Ev_miss = 1"
| "pending_inc ev = 0"

fun pending_dec :: "'v event \<Rightarrow> nat" where
  "pending_dec (Ev_late_hit v) = 1"
| "pending_dec Ev_published = 1"
| "pending_dec Ev_threw = 1"
| "pending_dec ev = 0"

subsection \<open>A store for the examples\<close>

definition example_store :: "(nat, nat) lru_cache_using_std" where
  "example_store =
     \<lparr>fn = (\<lambda>k. Some (10 * k)), capacity = 2, key_tracker = [(1, 5), (2, 7)],
      key_to_value = fmupd 7 (70, 2) (fmupd 5 (50, 1) fmempty),
      eval_counters = fmupd 7 1 (fmupd 5 1 fmempty)\<rparr>"

section \<open>Properties of the core store\<close>

subsection \<open>The invariant is kept\<close>

lemma foldr_max_ge: "h \<in> set hs \<Longrightarrow> h \<le> foldr max hs (0::nat)"
  by (induction hs) (auto simp: max_def)

lemma fresh_node_notin: "fresh_node t \<notin> fst ` set t"
proof
  assume "fresh_node t \<in> fst ` set t"
  then have "fresh_node t \<in> set (map fst t)" by simp
  then have "fresh_node t \<le> foldr max (map fst t) 0" by (rule foldr_max_ge)
  then show False by (simp add: fresh_node_def)
qed

lemma invar_size: "invar s \<Longrightarrow> fcard (fmdom (key_to_value s)) = length (key_tracker s)"
proof -
  assume a: "invar s"
  have "fcard (fmdom (key_to_value s)) = card (fmdom' (key_to_value s))"
    by (simp add: fcard.rep_eq fmdom'_alt_def)
  also have "\<dots> = card (snd ` set (key_tracker s))" using a by (simp add: invar_def)
  also have "\<dots> = card (set (map snd (key_tracker s)))" by simp
  also have "\<dots> = length (map snd (key_tracker s))"
    using a unfolding invar_def by (metis distinct_card)
  finally show ?thesis by simp
qed

lemma invar_new: "0 < c \<Longrightarrow> lru_cache_using_std f c = Inr s \<Longrightarrow> invar s"
  by (auto simp: lru_cache_using_std_def invar_def)

lemma evict_invar_full:
  assumes "invar s" "key_tracker s = n # rest"
  shows "evict s = Inr (s\<lparr>key_to_value := fmdrop (snd n) (key_to_value s), key_tracker := rest\<rparr>)"
  using assms by (auto simp: evict_def invar_def split: option.splits)

lemma invar_evicted:
  assumes "invar s" "key_tracker s = n # rest"
  shows "invar (s\<lparr>key_to_value := fmdrop (snd n) (key_to_value s), key_tracker := rest\<rparr>)"
proof -
  from assms have d1: "distinct (map fst rest)" and d2: "distinct (map snd rest)"
    and nin: "snd n \<notin> snd ` set rest"
    and dom: "insert (snd n) (snd ` set rest) = fmdom' (key_to_value s)"
    and lk: "\<forall>n' \<in> set rest. \<exists>v. fmlookup (key_to_value s) (snd n') = Some (v, fst n')"
    and len: "length rest \<le> capacity s" and cap: "0 < capacity s"
    by (auto simp: invar_def)
  have dom': "snd ` set rest = fmdom' (key_to_value s) - {snd n}"
    using nin dom by blast
  have lk': "\<forall>n' \<in> set rest. \<exists>v. fmlookup (fmdrop (snd n) (key_to_value s)) (snd n') = Some (v, fst n')"
  proof
    fix n' assume m: "n' \<in> set rest"
    then have "snd n' \<noteq> snd n" using nin by (metis imageI)
    with lk m show "\<exists>v. fmlookup (fmdrop (snd n) (key_to_value s)) (snd n') = Some (v, fst n')"
      by simp
  qed
  show ?thesis
    unfolding invar_def using d1 d2 dom' lk' len cap by simp
qed

lemma invar_appended:
  assumes "invar s" "length (key_tracker s) < capacity s" "fmlookup (key_to_value s) k = None"
  shows "invar (s\<lparr>key_tracker := key_tracker s @ [(fresh_node (key_tracker s), k)],
                   key_to_value := fmupd k (v, fresh_node (key_tracker s)) (key_to_value s)\<rparr>)"
proof -
  let ?t = "key_tracker s" and ?m = "key_to_value s"
  let ?it = "fresh_node (key_tracker s)"
  from assms(1) have d1: "distinct (map fst ?t)" and d2: "distinct (map snd ?t)"
    and dom: "snd ` set ?t = fmdom' ?m"
    and lk: "\<forall>n \<in> set ?t. \<exists>v. fmlookup ?m (snd n) = Some (v, fst n)"
    and cap: "0 < capacity s"
    by (auto simp: invar_def)
  have knew: "k \<notin> snd ` set ?t"
    using assms(3) dom by (simp add: fmdom'_notI)
  have itnew: "?it \<notin> fst ` set ?t" by (rule fresh_node_notin)
  have lk': "\<forall>n \<in> set (?t @ [(?it, k)]). \<exists>w. fmlookup (fmupd k (v, ?it) ?m) (snd n) = Some (w, fst n)"
  proof
    fix n assume "n \<in> set (?t @ [(?it, k)])"
    then consider "n \<in> set ?t" | "n = (?it, k)" by auto
    then show "\<exists>w. fmlookup (fmupd k (v, ?it) ?m) (snd n) = Some (w, fst n)"
    proof cases
      case 1
      then have "snd n \<noteq> k" using knew by (metis imageI)
      with 1 lk show ?thesis by simp
    next
      case 2
      then show ?thesis by simp
    qed
  qed
  have dom': "snd ` set (?t @ [(?it, k)]) = fmdom' (fmupd k (v, ?it) ?m)"
    using dom by auto
  have d1': "distinct (map fst (?t @ [(?it, k)]))" using d1 itnew by simp
  have d2': "distinct (map snd (?t @ [(?it, k)]))" using d2 knew by simp
  have len: "length (?t @ [(?it, k)]) \<le> capacity s" using assms(2) by simp
  show ?thesis
    unfolding invar_def using d1' d2' dom' lk' len cap by simp
qed

lemma is_full_invar: "invar s \<Longrightarrow> is_full s \<longleftrightarrow> capacity s \<le> length (key_tracker s)"
  by (simp add: is_full_def invar_size)

lemma insert_kv_full:
  assumes "invar s" "fmlookup (key_to_value s) k = None" "is_full s"
  shows "\<exists>n rest. key_tracker s = n # rest \<and>
           insert_kv s k v =
             Inr (s\<lparr>key_tracker := rest @ [(fresh_node rest, k)],
                   key_to_value := fmupd k (v, fresh_node rest) (fmdrop (snd n) (key_to_value s))\<rparr>) \<and>
           invar (s\<lparr>key_tracker := rest @ [(fresh_node rest, k)],
                   key_to_value := fmupd k (v, fresh_node rest) (fmdrop (snd n) (key_to_value s))\<rparr>)"
proof -
  from assms(1,3) have "0 < length (key_tracker s)"
    by (simp add: is_full_invar invar_def)
  then obtain n rest where t: "key_tracker s = n # rest" by (cases "key_tracker s") auto
  let ?s1 = "s\<lparr>key_to_value := fmdrop (snd n) (key_to_value s), key_tracker := rest\<rparr>"
  have ev: "evict s = Inr ?s1" using assms(1) t by (rule evict_invar_full)
  have inv1: "invar ?s1" using assms(1) t by (rule invar_evicted)
  have len1: "length (key_tracker ?s1) < capacity ?s1"
    using assms(1) t by (simp add: invar_def)
  have none1: "fmlookup (key_to_value ?s1) k = None" using assms(2) by simp
  have "insert_kv s k v =
          Inr (?s1\<lparr>key_tracker := key_tracker ?s1 @ [(fresh_node (key_tracker ?s1), k)],
                 key_to_value := fmupd k (v, fresh_node (key_tracker ?s1)) (key_to_value ?s1)\<rparr>)"
    using assms(2,3) ev none1 by (simp add: insert_kv_def Let_def)
  moreover have "invar (?s1\<lparr>key_tracker := key_tracker ?s1 @ [(fresh_node (key_tracker ?s1), k)],
                 key_to_value := fmupd k (v, fresh_node (key_tracker ?s1)) (key_to_value ?s1)\<rparr>)"
    using inv1 len1 none1 by (rule invar_appended)
  ultimately show ?thesis using t by simp
qed

lemma insert_kv_room:
  assumes "invar s" "fmlookup (key_to_value s) k = None" "\<not> is_full s"
  shows "insert_kv s k v =
             Inr (s\<lparr>key_tracker := key_tracker s @ [(fresh_node (key_tracker s), k)],
                   key_to_value := fmupd k (v, fresh_node (key_tracker s)) (key_to_value s)\<rparr>) \<and>
           invar (s\<lparr>key_tracker := key_tracker s @ [(fresh_node (key_tracker s), k)],
                   key_to_value := fmupd k (v, fresh_node (key_tracker s)) (key_to_value s)\<rparr>)"
proof -
  have len: "length (key_tracker s) < capacity s"
    using assms(1,3) by (simp add: is_full_invar)
  have "insert_kv s k v =
             Inr (s\<lparr>key_tracker := key_tracker s @ [(fresh_node (key_tracker s), k)],
                   key_to_value := fmupd k (v, fresh_node (key_tracker s)) (key_to_value s)\<rparr>)"
    using assms(2,3) by (simp add: insert_kv_def Let_def)
  moreover note invar_appended [OF assms(1) len assms(2)]
  ultimately show ?thesis by simp
qed

lemma insert_kv_invar:
  assumes "invar s" "fmlookup (key_to_value s) k = None"
  shows "\<exists>s'. insert_kv s k v = Inr s' \<and> invar s' \<and> fn s' = fn s \<and> capacity s' = capacity s"
proof (cases "is_full s")
  case True
  from insert_kv_full [OF assms True, of v] show ?thesis by auto
next
  case False
  from insert_kv_room [OF assms False, of v] show ?thesis by auto
qed

lemma filter_fst_single:
  "distinct (map fst t) \<Longrightarrow> (a, b) \<in> set t \<Longrightarrow> filter (\<lambda>n. fst n = a) t = [(a, b)]"
proof (induction t)
  case Nil
  then show ?case by simp
next
  case (Cons n t)
  show ?case
  proof (cases "n = (a, b)")
    case True
    have "a \<notin> fst ` set t" using Cons.prems(1) True by simp
    then have "filter (\<lambda>n. fst n = a) t = []"
      by (auto simp: filter_empty_conv)
    with True show ?thesis by simp
  next
    case False
    with Cons.prems have m: "(a, b) \<in> set t" by simp
    then have "a \<in> fst ` set t" by force
    then have "fst n \<noteq> a" using Cons.prems(1) by auto
    with Cons.IH Cons.prems(1) m show ?thesis by simp
  qed
qed

lemma node_key_agree:
  assumes "distinct (map fst t)" "distinct (map snd t)" "(a, b) \<in> set t" "n \<in> set t"
  shows "fst n = a \<longleftrightarrow> snd n = b"
proof
  assume "fst n = a"
  then have "n = (a, b)"
    using assms(1,3,4) by (metis eq_key_imp_eq_value prod.collapse)
  then show "snd n = b" by simp
next
  assume "snd n = b"
  have "distinct (map fst (map prod.swap t))" using assms(2) by (simp add: comp_def)
  moreover have "(b, a) \<in> set (map prod.swap t)" using assms(3) by force
  moreover have "(snd n, fst n) \<in> set (map prod.swap t)" using assms(4) by force
  ultimately have "a = fst n" using \<open>snd n = b\<close> by (metis eq_key_imp_eq_value)
  then show "fst n = a" by simp
qed

lemma lookup_node:
  assumes "invar s" "fmlookup (key_to_value s) k = Some (v, it)"
  shows "(it, k) \<in> set (key_tracker s)"
proof -
  from assms(2) have "k \<in> fmdom' (key_to_value s)" by (rule fmdom'I)
  with assms(1) have "k \<in> snd ` set (key_tracker s)" by (simp add: invar_def)
  then obtain n where n: "n \<in> set (key_tracker s)" "snd n = k" by auto
  with assms(1) obtain w where "fmlookup (key_to_value s) (snd n) = Some (w, fst n)"
    unfolding invar_def by blast
  with n assms(2) have "fst n = it" by simp
  with n show ?thesis by (metis prod.collapse)
qed

lemma splice_end_invar:
  assumes "invar s" "fmlookup (key_to_value s) k = Some (v, it)"
  shows "splice_end (key_tracker s) it = Inr (filter (\<lambda>n. snd n \<noteq> k) (key_tracker s) @ [(it, k)])"
proof -
  let ?t = "key_tracker s"
  have mem: "(it, k) \<in> set ?t" using assms by (rule lookup_node)
  from assms(1) have d1: "distinct (map fst ?t)" and d2: "distinct (map snd ?t)"
    by (auto simp: invar_def)
  have "it \<in> fst ` set ?t" using mem by force
  moreover have "filter (\<lambda>n. fst n = it) ?t = [(it, k)]"
    using d1 mem by (rule filter_fst_single)
  moreover have "filter (\<lambda>n. fst n \<noteq> it) ?t = filter (\<lambda>n. snd n \<noteq> k) ?t"
    by (rule filter_cong) (use node_key_agree [OF d1 d2 mem] in auto)
  ultimately show ?thesis by (simp add: splice_end_def)
qed

lemma invar_moved:
  assumes "invar s" "fmlookup (key_to_value s) k = Some (v, it)"
  shows "invar (s\<lparr>key_tracker := filter (\<lambda>n. snd n \<noteq> k) (key_tracker s) @ [(it, k)]\<rparr>)"
proof -
  let ?t = "key_tracker s" and ?m = "key_to_value s"
  let ?t' = "filter (\<lambda>n. snd n \<noteq> k) ?t @ [(it, k)]"
  have mem: "(it, k) \<in> set ?t" using assms by (rule lookup_node)
  from assms(1) have d1: "distinct (map fst ?t)" and d2: "distinct (map snd ?t)"
    and dom: "snd ` set ?t = fmdom' ?m"
    and lk: "\<forall>n \<in> set ?t. \<exists>v. fmlookup ?m (snd n) = Some (v, fst n)"
    and len: "length ?t \<le> capacity s"
    and cap: "0 < capacity s"
    by (auto simp: invar_def)
  have agree: "\<And>n. n \<in> set ?t \<Longrightarrow> fst n = it \<longleftrightarrow> snd n = k"
    by (rule node_key_agree [OF d1 d2 mem])
  have only: "n = (it, k)" if "n \<in> set ?t" "snd n = k" for n
    using agree [OF that(1)] that(2) by (metis prod.collapse)
  have set': "set ?t' = set ?t"
  proof
    show "set ?t' \<subseteq> set ?t" using mem by auto
    show "set ?t \<subseteq> set ?t'"
    proof
      fix n assume "n \<in> set ?t"
      then show "n \<in> set ?t'" using only [of n] by (cases "snd n = k") simp_all
    qed
  qed
  have itnew: "it \<notin> fst ` set (filter (\<lambda>n. snd n \<noteq> k) ?t)"
  proof
    assume "it \<in> fst ` set (filter (\<lambda>n. snd n \<noteq> k) ?t)"
    then obtain n where "n \<in> set ?t" "snd n \<noteq> k" "fst n = it" by auto
    then show False using agree [of n] by simp
  qed
  have d1': "distinct (map fst ?t')"
    using d1 itnew by (simp add: distinct_map_filter)
  have knew: "k \<notin> snd ` set (filter (\<lambda>n. snd n \<noteq> k) ?t)" by auto
  have d2': "distinct (map snd ?t')"
    using d2 knew by (simp add: distinct_map_filter)
  have "length (filter (\<lambda>n. snd n \<noteq> k) ?t) < length ?t"
    using mem by (intro length_filter_less [of "(it, k)"]) auto
  then have len': "length ?t' \<le> capacity s" using len by simp
  have "snd ` set ?t' = fmdom' ?m" using dom set' by simp
  moreover have "\<forall>n \<in> set ?t'. \<exists>v. fmlookup ?m (snd n) = Some (v, fst n)"
    using lk set' by simp
  ultimately show ?thesis
    unfolding invar_def using d1' d2' len' cap by simp
qed

lemma erase_first_filter:
  "distinct (map snd t) \<Longrightarrow> erase_first key t = filter (\<lambda>n. snd n \<noteq> key) t"
proof (induction t)
  case Nil
  then show ?case by simp
next
  case (Cons n t)
  show ?case
  proof (cases "snd n = key")
    case True
    then have "key \<notin> snd ` set t" using Cons.prems by auto
    then have "filter (\<lambda>n. snd n \<noteq> key) t = t"
      by (auto simp: filter_id_conv)
    with True show ?thesis by simp
  next
    case False
    with Cons show ?thesis by simp
  qed
qed

lemma invar_erased:
  assumes "invar s"
  shows "invar (s\<lparr>key_to_value := fmdrop key (key_to_value s),
                   key_tracker := filter (\<lambda>n. snd n \<noteq> key) (key_tracker s)\<rparr>)"
proof -
  let ?t = "key_tracker s" and ?m = "key_to_value s"
  let ?t' = "filter (\<lambda>n. snd n \<noteq> key) ?t"
  from assms(1) have d1: "distinct (map fst ?t)" and d2: "distinct (map snd ?t)"
    and dom: "snd ` set ?t = fmdom' ?m"
    and lk: "\<forall>n \<in> set ?t. \<exists>v. fmlookup ?m (snd n) = Some (v, fst n)"
    and len: "length ?t \<le> capacity s"
    and cap: "0 < capacity s"
    by (auto simp: invar_def)
  have d1': "distinct (map fst ?t')" using d1 by (simp add: distinct_map_filter)
  have d2': "distinct (map snd ?t')" using d2 by (simp add: distinct_map_filter)
  have "snd ` set ?t' = snd ` set ?t - {key}" by auto
  then have dom': "snd ` set ?t' = fmdom' (fmdrop key ?m)" using dom by simp
  have lk': "\<forall>n \<in> set ?t'. \<exists>v. fmlookup (fmdrop key ?m) (snd n) = Some (v, fst n)"
    using lk by simp
  have len': "length ?t' \<le> capacity s"
    using len length_filter_le [of "\<lambda>n. snd n \<noteq> key" ?t] by linarith
  show ?thesis
    unfolding invar_def using d1' d2' dom' lk' len' cap by simp
qed

lemma operator_call_hit:
  assumes "invar s" "fmlookup (key_to_value s) k = Some (v, it)"
  shows "operator_call s k =
           Inr (v, s\<lparr>key_tracker := filter (\<lambda>n. snd n \<noteq> k) (key_tracker s) @ [(it, k)]\<rparr>)"
  using assms(2) splice_end_invar [OF assms] by (simp add: operator_call_def)

lemma operator_call_miss:
  assumes "fmlookup (key_to_value s) k = None"
  shows "operator_call s k =
           (case fn s k of
              None \<Rightarrow> Inl ComputeFailed
            | Some v \<Rightarrow>
                (case insert_kv s k v of
                   Inl e \<Rightarrow> Inl e
                 | Inr s1 \<Rightarrow> Inr (v, s1\<lparr>eval_counters := bump_counter (eval_counters s1) k\<rparr>)))"
  using assms by (simp add: operator_call_def)

lemma invar_eval_counters [simp]: "invar (s\<lparr>eval_counters := c\<rparr>) = invar s"
  by (simp add: invar_def)

lemma invar_fn [simp]: "invar (s\<lparr>fn := f\<rparr>) = invar s"
  by (simp add: invar_def)

lemma operator_call_invar:
  assumes "invar s"
  shows "operator_call s k = Inl ComputeFailed \<or>
         (\<exists>v s'. operator_call s k = Inr (v, s') \<and> invar s' \<and> capacity s' = capacity s \<and> fn s' = fn s)"
proof (cases "fmlookup (key_to_value s) k")
  case None
  show ?thesis
  proof (cases "fn s k")
    case fnone: None
    with None show ?thesis by (simp add: operator_call_miss)
  next
    case (Some v)
    from insert_kv_invar [OF assms None, of v] obtain s1 where
      "insert_kv s k v = Inr s1" "invar s1" "fn s1 = fn s" "capacity s1 = capacity s" by blast
    with None Some show ?thesis by (simp add: operator_call_miss)
  qed
next
  case (Some p)
  obtain v it where p: "p = (v, it)" by (cases p)
  from Some p operator_call_hit [OF assms, of k v it] invar_moved [OF assms, of k v it]
  show ?thesis by simp
qed

lemma set_value_invar:
  assumes "invar s"
  shows "\<exists>s'. set_value s k v = Inr s' \<and> invar s' \<and> capacity s' = capacity s \<and> fn s' = fn s"
proof (cases "fmlookup (key_to_value s) k")
  case None
  with insert_kv_invar [OF assms None, of v] show ?thesis by (auto simp: set_value_def)
next
  case (Some p)
  with assms show ?thesis by (simp add: set_value_def)
qed

lemma evict_key_present:
  assumes "invar s" "fmlookup (key_to_value s) k = Some p"
  shows "evict_key s k =
           Inr (s\<lparr>key_to_value := fmdrop k (key_to_value s),
                  key_tracker := filter (\<lambda>n. snd n \<noteq> k) (key_tracker s)\<rparr>)"
proof -
  from assms(2) have "k \<in> fmdom' (key_to_value s)" by (rule fmdom'I)
  with assms(1) have "k \<in> snd ` set (key_tracker s)" by (simp add: invar_def)
  moreover from assms(1) have "distinct (map snd (key_tracker s))" by (simp add: invar_def)
  ultimately show ?thesis using assms(2) by (simp add: evict_key_def erase_first_filter)
qed

lemma evict_key_invar:
  assumes "invar s"
  shows "\<exists>s'. evict_key s k = Inr s' \<and> invar s' \<and> capacity s' = capacity s \<and> fn s' = fn s"
proof (cases "fmlookup (key_to_value s) k")
  case None
  with assms show ?thesis by (simp add: evict_key_def)
next
  case (Some p)
  from evict_key_present [OF assms Some] invar_erased [OF assms, of k]
  show ?thesis by simp
qed

lemma apply_op_invar:
  assumes "invar s"
  shows "apply_op s x = Inl ComputeFailed \<or>
         (\<exists>r s'. apply_op s x = Inr (r, s') \<and> invar s' \<and> capacity s' = capacity s \<and> fn s' = fn s)"
proof (cases x)
  case (Op_call k)
  with operator_call_invar [OF assms, of k] show ?thesis by auto
next
  case (Op_set k v)
  with set_value_invar [OF assms, of k v] show ?thesis by auto
next
  case (Op_evict k)
  with evict_key_invar [OF assms, of k] show ?thesis by auto
qed (use assms in simp_all)

lemma run_ops_invar:
  "invar s \<Longrightarrow> \<exists>s'. run_ops s xs = Inr s' \<and> invar s' \<and> capacity s' = capacity s \<and> fn s' = fn s"
proof (induction xs arbitrary: s)
  case Nil
  then show ?case by simp
next
  case (Cons x xs)
  from apply_op_invar [OF Cons.prems, of x] show ?case
  proof
    assume "apply_op s x = Inl ComputeFailed"
    with Cons.IH [OF Cons.prems] show ?thesis by simp
  next
    assume "\<exists>r s'. apply_op s x = Inr (r, s') \<and> invar s' \<and> capacity s' = capacity s \<and> fn s' = fn s"
    then obtain r s1 where s1: "apply_op s x = Inr (r, s1)" "invar s1"
      "capacity s1 = capacity s" "fn s1 = fn s" by blast
    from Cons.IH [OF s1(2)] s1 show ?thesis by simp
  qed
qed

lemma one_node_per_key:
  "distinct (map snd t) \<Longrightarrow> k \<in> snd ` set t \<Longrightarrow> length (filter (\<lambda>n. snd n = k) t) = 1"
proof (induction t)
  case Nil
  then show ?case by simp
next
  case (Cons n t)
  show ?case
  proof (cases "snd n = k")
    case True
    then have "k \<notin> snd ` set t" using Cons.prems(1) by auto
    then have "filter (\<lambda>n. snd n = k) t = []" by (auto simp: filter_empty_conv)
    with True show ?thesis by simp
  next
    case False
    with Cons show ?thesis by auto
  qed
qed

lemma invar_example_store: "invar example_store"
  by (auto simp: example_store_def invar_def)

lemma is_full_example_store: "is_full example_store"
  by (simp add: example_store_def is_full_def fcard_finsert_if fcard_fempty)

subsection \<open>The operations\<close>

text \<open>
  Claim C2. On a store that satisfies the invariant, \<^verbatim>\<open>operator()\<close> on a key that
  is present moves the node of the key to the most recent end of \<^verbatim>\<open>_key_tracker\<close>
  and returns the stored value, whatever \<^verbatim>\<open>_fn\<close> is (it is not invoked; it may
  even be a function that always throws). On a key that is absent, with \<^verbatim>\<open>_fn(k)\<close>
  returning \<open>v\<close>, it drops the least recently used record first when the store is full,
  appends a node for the key at the most recent end, enters \<open>v\<close> for the key, counts the
  evaluation and returns \<open>v\<close>.
\<close>

theorem operator_call_hit_or_miss:
  assumes "invar s"
  shows "(\<forall>v it. fmlookup (key_to_value s) k = Some (v, it) \<longrightarrow>
            (\<forall>f. operator_call (s\<lparr>fn := f\<rparr>) k =
                   Inr (v, s\<lparr>fn := f,
                             key_tracker := filter (\<lambda>n. snd n \<noteq> k) (key_tracker s) @ [(it, k)]\<rparr>))) \<and>
         (\<forall>v. fmlookup (key_to_value s) k = None \<and> fn s k = Some v \<longrightarrow>
            (\<exists>it. operator_call s k =
                   Inr (v, s\<lparr>key_tracker :=
                               (if is_full s then tl (key_tracker s) else key_tracker s) @ [(it, k)],
                             key_to_value :=
                               fmupd k (v, it)
                                 (if is_full s then fmdrop (snd (hd (key_tracker s))) (key_to_value s)
                                  else key_to_value s),
                             eval_counters := bump_counter (eval_counters s) k\<rparr>)))"
proof (intro conjI allI impI)
  fix v it f
  assume lk: "fmlookup (key_to_value s) k = Some (v, it)"
  have "invar (s\<lparr>fn := f\<rparr>)" using assms by simp
  moreover have "fmlookup (key_to_value (s\<lparr>fn := f\<rparr>)) k = Some (v, it)" using lk by simp
  ultimately have "operator_call (s\<lparr>fn := f\<rparr>) k =
      Inr (v, (s\<lparr>fn := f\<rparr>)\<lparr>key_tracker :=
                 filter (\<lambda>n. snd n \<noteq> k) (key_tracker (s\<lparr>fn := f\<rparr>)) @ [(it, k)]\<rparr>)"
    by (rule operator_call_hit)
  then show "operator_call (s\<lparr>fn := f\<rparr>) k =
      Inr (v, s\<lparr>fn := f, key_tracker := filter (\<lambda>n. snd n \<noteq> k) (key_tracker s) @ [(it, k)]\<rparr>)"
    by simp
next
  fix v
  assume a: "fmlookup (key_to_value s) k = None \<and> fn s k = Some v"
  then have none: "fmlookup (key_to_value s) k = None" and fv: "fn s k = Some v" by simp_all
  show "\<exists>it. operator_call s k =
          Inr (v, s\<lparr>key_tracker :=
                      (if is_full s then tl (key_tracker s) else key_tracker s) @ [(it, k)],
                    key_to_value :=
                      fmupd k (v, it)
                        (if is_full s then fmdrop (snd (hd (key_tracker s))) (key_to_value s)
                         else key_to_value s),
                    eval_counters := bump_counter (eval_counters s) k\<rparr>)"
  proof (cases "is_full s")
    case True
    from insert_kv_full [OF assms none True, of v] obtain n rest where
      t: "key_tracker s = n # rest" and
      ins: "insert_kv s k v =
             Inr (s\<lparr>key_tracker := rest @ [(fresh_node rest, k)],
                   key_to_value := fmupd k (v, fresh_node rest) (fmdrop (snd n) (key_to_value s))\<rparr>)"
      by blast
    show ?thesis
      by (rule exI [of _ "fresh_node rest"]) (simp add: operator_call_miss none fv ins True t)
  next
    case False
    from insert_kv_room [OF assms none False, of v] show ?thesis
      by (intro exI [of _ "fresh_node (key_tracker s)"]) (simp add: operator_call_miss none fv False)
  qed
qed

theorem operator_call_hit_or_miss_witness:
  "invar example_store \<and>
   fmlookup (key_to_value example_store) 5 = Some (50, 1) \<and>
   operator_call (example_store\<lparr>fn := (\<lambda>k. None)\<rparr>) 5 =
     Inr (50, example_store\<lparr>fn := (\<lambda>k. None), key_tracker := [(2, 7), (1, 5)]\<rparr>) \<and>
   fmlookup (key_to_value example_store) 9 = None \<and> fn example_store 9 = Some 90 \<and>
   (\<exists>it. operator_call example_store 9 =
      Inr (90, example_store\<lparr>key_tracker := [(2, 7), (it, 9)],
           key_to_value := fmupd 9 (90, it) (fmdrop 5 (key_to_value example_store)),
           eval_counters := fmupd 9 1 (eval_counters example_store)\<rparr>))"
proof -
  have h: "fmlookup (key_to_value example_store) 5 = Some (50, 1)"
    by (simp add: example_store_def)
  have m: "fmlookup (key_to_value example_store) 9 = None \<and> fn example_store 9 = Some 90"
    by (simp add: example_store_def)
  note t = operator_call_hit_or_miss [OF invar_example_store]
  from t [of 5] h have
    "operator_call (example_store\<lparr>fn := (\<lambda>k. None)\<rparr>) 5 =
       Inr (50, example_store\<lparr>fn := (\<lambda>k. None),
              key_tracker := filter (\<lambda>n. snd n \<noteq> 5) (key_tracker example_store) @ [(1, 5)]\<rparr>)"
    by blast
  moreover have "filter (\<lambda>n. snd n \<noteq> 5) (key_tracker example_store) @ [(1, 5)] = [(2, 7), (1, 5)]"
    by (simp add: example_store_def)
  moreover from t [of 9] m is_full_example_store have
    "\<exists>it. operator_call example_store 9 =
       Inr (90, example_store\<lparr>key_tracker := tl (key_tracker example_store) @ [(it, 9)],
            key_to_value :=
              fmupd 9 (90, it) (fmdrop (snd (hd (key_tracker example_store))) (key_to_value example_store)),
            eval_counters := bump_counter (eval_counters example_store) 9\<rparr>)"
    by simp
  moreover have "tl (key_tracker example_store) = [(2, 7)]"
    "snd (hd (key_tracker example_store)) = 5"
    "bump_counter (eval_counters example_store) 9 = fmupd 9 1 (eval_counters example_store)"
    by (simp_all add: example_store_def bump_counter_def)
  ultimately show ?thesis using h m invar_example_store by simp
qed

text \<open>
  Claim C3. A store constructed with a capacity \<open>c > 0\<close> goes through every sequence
  of operations without a failed assertion, and after it every key of the map is in exactly
  one node of the list, every node of the list holds a key whose map entry points back to that
  node, map and list have the same size, and the size is at most \<open>c\<close>.
\<close>

theorem store_bijection_and_capacity:
  assumes "0 < c"
  shows "\<exists>s0 s. lru_cache_using_std f c = Inr s0 \<and> run_ops s0 xs = Inr s \<and>
           (\<forall>k \<in> fmdom' (key_to_value s). length (filter (\<lambda>n. snd n = k) (key_tracker s)) = 1) \<and>
           (\<forall>n \<in> set (key_tracker s). \<exists>v. fmlookup (key_to_value s) (snd n) = Some (v, fst n)) \<and>
           fcard (fmdom (key_to_value s)) = length (key_tracker s) \<and>
           fcard (fmdom (key_to_value s)) \<le> c"
proof -
  obtain s0 where s0: "lru_cache_using_std f c = Inr s0" "capacity s0 = c"
    using assms by (simp add: lru_cache_using_std_def)
  have "invar s0" using assms s0(1) by (rule invar_new)
  from run_ops_invar [OF this, of xs] obtain s where
    s: "run_ops s0 xs = Inr s" "invar s" "capacity s = capacity s0" by blast
  have sz: "fcard (fmdom (key_to_value s)) = length (key_tracker s)"
    using s(2) by (rule invar_size)
  have "\<forall>k \<in> fmdom' (key_to_value s). length (filter (\<lambda>n. snd n = k) (key_tracker s)) = 1"
    using s(2) by (simp add: invar_def one_node_per_key)
  moreover have "\<forall>n \<in> set (key_tracker s). \<exists>v. fmlookup (key_to_value s) (snd n) = Some (v, fst n)"
    using s(2) by (simp add: invar_def)
  moreover have "fcard (fmdom (key_to_value s)) \<le> c"
    using s(2,3) s0(2) sz by (simp add: invar_def)
  ultimately show ?thesis using s0(1) s(1) sz by blast
qed

theorem store_bijection_and_capacity_witness:
  "0 < (2::nat) \<and>
   (\<exists>s0 s. lru_cache_using_std (\<lambda>k::nat. Some (10 * k)) 2 = Inr s0 \<and>
      run_ops s0 [Op_call 1, Op_set 2 20, Op_call 3, Op_evict 1] = Inr s \<and>
      fmdom' (key_to_value s) = {2, 3} \<and>
      (\<forall>k \<in> fmdom' (key_to_value s). length (filter (\<lambda>n. snd n = k) (key_tracker s)) = 1) \<and>
      (\<forall>n \<in> set (key_tracker s). \<exists>v. fmlookup (key_to_value s) (snd n) = Some (v, fst n)) \<and>
      fcard (fmdom (key_to_value s)) = length (key_tracker s) \<and>
      fcard (fmdom (key_to_value s)) \<le> 2)"
proof -
  have c: "0 < (2::nat)" by simp
  from store_bijection_and_capacity [OF c, of "\<lambda>k::nat. Some (10 * k)"
      "[Op_call 1, Op_set 2 20, Op_call 3, Op_evict 1]"]
  obtain s0 s where a: "lru_cache_using_std (\<lambda>k::nat. Some (10 * k)) 2 = Inr s0"
    "run_ops s0 [Op_call 1, Op_set 2 (20::nat), Op_call 3, Op_evict 1] = Inr s"
    "\<forall>k \<in> fmdom' (key_to_value s). length (filter (\<lambda>n. snd n = k) (key_tracker s)) = 1"
    "\<forall>n \<in> set (key_tracker s). \<exists>v. fmlookup (key_to_value s) (snd n) = Some (v, fst n)"
    "fcard (fmdom (key_to_value s)) = length (key_tracker s)"
    "fcard (fmdom (key_to_value s)) \<le> 2"
    by blast
  have "fmdom' (key_to_value s) = {2, 3}"
    using a(1,2)
    by (auto simp: lru_cache_using_std_def operator_call_def set_value_def evict_key_def
        insert_kv_def is_full_def evict_def fresh_node_def fcard_finsert_if fcard_fempty)
  with a c show ?thesis by (intro conjI exI [of _ s0] exI [of _ s]) simp_all
qed

text \<open>
  Claim C5. With capacity 2 and distinct keys \<open>a\<close>, \<open>b\<close>, \<open>c\<close> on which the
  cached function returns, the calls \<open>a, b, a, c\<close> on a new store leave exactly the keys
  \<open>a\<close> and \<open>c\<close>, \<open>c\<close> most recent: \<open>b\<close> was evicted.
\<close>

theorem recency_a_b_a_c:
  assumes "a \<noteq> b" "a \<noteq> c" "b \<noteq> c" "f a \<noteq> None" "f b \<noteq> None" "f c \<noteq> None"
  shows "\<exists>s0 s. lru_cache_using_std f 2 = Inr s0 \<and>
           run_ops s0 [Op_call a, Op_call b, Op_call a, Op_call c] = Inr s \<and>
           fmdom' (key_to_value s) = {a, c} \<and>
           get_keys s = [c, a] \<and>
           \<not> has s b"
proof -
  from assms obtain va vb vc where f: "f a = Some va" "f b = Some vb" "f c = Some vc" by auto
  show ?thesis
    using assms(1-3) f
    by (auto simp: lru_cache_using_std_def operator_call_def insert_kv_def is_full_def
        evict_def splice_end_def fresh_node_def get_keys_def has_def fcard_finsert_if
        fcard_fempty)
qed

theorem recency_a_b_a_c_witness:
  "(1::nat) \<noteq> 2 \<and> (1::nat) \<noteq> 3 \<and> (2::nat) \<noteq> 3 \<and>
   (\<exists>s0 s. lru_cache_using_std (\<lambda>k::nat. Some (10 * k)) 2 = Inr s0 \<and>
      run_ops s0 [Op_call 1, Op_call 2, Op_call 1, Op_call 3] = Inr s \<and>
      fmdom' (key_to_value s) = {1, 3} \<and> get_keys s = [3, 1] \<and> \<not> has s 2)"
  using recency_a_b_a_c [of "1::nat" 2 3 "\<lambda>k. Some (10 * k)"] by simp

text \<open>
  Claim C6. \<^verbatim>\<open>set(k, v)\<close> on a key that is present returns with the whole store
  unchanged, whatever \<open>v\<close> and the stored value are (no comparison of values is made);
  on a key that is absent it enters \<open>v\<close> for the key, as the most recent record.
\<close>

theorem set_value_put_if_absent:
  "(\<forall>p. fmlookup (key_to_value s) k = Some p \<longrightarrow> set_value s k v = Inr s) \<and>
   (invar s \<and> fmlookup (key_to_value s) k = None \<longrightarrow>
      (\<exists>s' it. set_value s k v = Inr s' \<and>
         fmlookup (key_to_value s') k = Some (v, it) \<and>
         last (key_tracker s') = (it, k)))"
proof (intro conjI allI impI)
  fix p assume "fmlookup (key_to_value s) k = Some p"
  then show "set_value s k v = Inr s" by (simp add: set_value_def)
next
  assume a: "invar s \<and> fmlookup (key_to_value s) k = None"
  then have inv: "invar s" and none: "fmlookup (key_to_value s) k = None" by simp_all
  show "\<exists>s' it. set_value s k v = Inr s' \<and>
         fmlookup (key_to_value s') k = Some (v, it) \<and> last (key_tracker s') = (it, k)"
  proof (cases "is_full s")
    case True
    from insert_kv_full [OF inv none True, of v] show ?thesis
      using none by (auto simp: set_value_def)
  next
    case False
    from insert_kv_room [OF inv none False, of v] show ?thesis
      using none by (auto simp: set_value_def)
  qed
qed

theorem set_value_put_if_absent_witness:
  "fmlookup (key_to_value example_store) 5 = Some (50, 1) \<and>
   set_value example_store 5 99 = Inr example_store \<and>
   invar example_store \<and> fmlookup (key_to_value example_store) 9 = None \<and>
   (\<exists>s' it. set_value example_store 9 90 = Inr s' \<and>
      fmlookup (key_to_value s') 9 = Some (90, it) \<and> last (key_tracker s') = (it, 9))"
proof -
  have h: "fmlookup (key_to_value example_store) 5 = Some (50, 1)"
    and m: "fmlookup (key_to_value example_store) 9 = None"
    by (simp_all add: example_store_def)
  from set_value_put_if_absent [of example_store 5 99] h
  have "set_value example_store 5 99 = Inr example_store" by blast
  moreover from set_value_put_if_absent [of example_store 9 90] m invar_example_store
  have "\<exists>s' it. set_value example_store 9 90 = Inr s' \<and>
      fmlookup (key_to_value s') 9 = Some (90, it) \<and> last (key_tracker s') = (it, 9)" by blast
  ultimately show ?thesis using h m invar_example_store by blast
qed

text \<open>
  Claim C7. \<^verbatim>\<open>evict(key)\<close> leaves the store unchanged when the key is absent. When
  the key is present it removes the entry of the key from the map and the node of the key
  from the list, and nothing else; a following \<^verbatim>\<open>operator()\<close> on the key is a miss:
  it invokes \<^verbatim>\<open>_fn\<close> (its exception propagates, its value is returned and the
  evaluation is counted).
\<close>

theorem evict_key_removes:
  "(fmlookup (key_to_value s) k = None \<longrightarrow> evict_key s k = Inr s) \<and>
   (invar s \<and> fmlookup (key_to_value s) k \<noteq> None \<longrightarrow>
      (\<exists>s'. evict_key s k = Inr s' \<and>
         s' = s\<lparr>key_to_value := fmdrop k (key_to_value s),
                key_tracker := filter (\<lambda>n. snd n \<noteq> k) (key_tracker s)\<rparr> \<and>
         fmlookup (key_to_value s') k = None \<and>
         k \<notin> snd ` set (key_tracker s') \<and>
         (case fn s k of
            None \<Rightarrow> operator_call s' k = Inl ComputeFailed
          | Some v \<Rightarrow>
              (\<exists>s''. operator_call s' k = Inr (v, s'') \<and>
                 eval_counters s'' = bump_counter (eval_counters s) k))))"
proof (intro conjI impI)
  assume "fmlookup (key_to_value s) k = None"
  then show "evict_key s k = Inr s" by (simp add: evict_key_def)
next
  assume a: "invar s \<and> fmlookup (key_to_value s) k \<noteq> None"
  then have inv: "invar s" by simp
  from a obtain p where p: "fmlookup (key_to_value s) k = Some p" by auto
  let ?s' = "s\<lparr>key_to_value := fmdrop k (key_to_value s),
               key_tracker := filter (\<lambda>n. snd n \<noteq> k) (key_tracker s)\<rparr>"
  have ev: "evict_key s k = Inr ?s'" using inv p by (rule evict_key_present)
  have inv': "invar ?s'" using inv by (rule invar_erased)
  have none': "fmlookup (key_to_value ?s') k = None" by simp
  have notin: "k \<notin> snd ` set (key_tracker ?s')" by auto
  have again: "(case fn s k of
            None \<Rightarrow> operator_call ?s' k = Inl ComputeFailed
          | Some v \<Rightarrow>
              (\<exists>s''. operator_call ?s' k = Inr (v, s'') \<and>
                 eval_counters s'' = bump_counter (eval_counters s) k))"
  proof (cases "fn s k")
    case None
    then show ?thesis using none' by (simp add: operator_call_miss)
  next
    case (Some v)
    have "is_full ?s' \<or> \<not> is_full ?s'" by simp
    then have "\<exists>s1. insert_kv ?s' k v = Inr s1 \<and> eval_counters s1 = eval_counters s"
    proof
      assume f: "is_full ?s'"
      from insert_kv_full [OF inv' none' f, of v] show ?thesis by auto
    next
      assume f: "\<not> is_full ?s'"
      from insert_kv_room [OF inv' none' f, of v] show ?thesis by auto
    qed
    then obtain s1 where "insert_kv ?s' k v = Inr s1" "eval_counters s1 = eval_counters s"
      by blast
    then show ?thesis using Some none' by (simp add: operator_call_miss)
  qed
  show "\<exists>s'. evict_key s k = Inr s' \<and>
         s' = ?s' \<and>
         fmlookup (key_to_value s') k = None \<and>
         k \<notin> snd ` set (key_tracker s') \<and>
         (case fn s k of
            None \<Rightarrow> operator_call s' k = Inl ComputeFailed
          | Some v \<Rightarrow>
              (\<exists>s''. operator_call s' k = Inr (v, s'') \<and>
                 eval_counters s'' = bump_counter (eval_counters s) k))"
    using ev none' notin again by blast
qed

theorem evict_key_removes_witness:
  "fmlookup (key_to_value example_store) 9 = None \<and>
   evict_key example_store 9 = Inr example_store \<and>
   invar example_store \<and> fmlookup (key_to_value example_store) 5 \<noteq> None \<and>
   evict_key example_store 5 =
     Inr (example_store\<lparr>key_to_value := fmdrop 5 (key_to_value example_store),
                         key_tracker := [(2, 7)]\<rparr>) \<and>
   (\<exists>s''. operator_call
            (example_store\<lparr>key_to_value := fmdrop 5 (key_to_value example_store),
                            key_tracker := [(2, 7)]\<rparr>) 5 = Inr (50, s'') \<and>
          fmlookup (eval_counters s'') 5 = Some 2)"
proof -
  have h: "fmlookup (key_to_value example_store) 5 \<noteq> None"
    and m: "fmlookup (key_to_value example_store) 9 = None"
    and f: "fn example_store 5 = Some 50"
    and t: "filter (\<lambda>n. snd n \<noteq> 5) (key_tracker example_store) = [(2, 7)]"
    and b: "fmlookup (bump_counter (eval_counters example_store) 5) 5 = Some 2"
    by (simp_all add: example_store_def bump_counter_def)
  from evict_key_removes [of example_store 9] m
  have "evict_key example_store 9 = Inr example_store" by blast
  moreover from evict_key_removes [of example_store 5] h invar_example_store f t
  have "evict_key example_store 5 =
     Inr (example_store\<lparr>key_to_value := fmdrop 5 (key_to_value example_store),
                         key_tracker := [(2, 7)]\<rparr>) \<and>
    (\<exists>s''. operator_call
            (example_store\<lparr>key_to_value := fmdrop 5 (key_to_value example_store),
                            key_tracker := [(2, 7)]\<rparr>) 5 = Inr (50, s'') \<and>
          eval_counters s'' = bump_counter (eval_counters example_store) 5)"
    by auto
  ultimately show ?thesis using h m invar_example_store b by auto
qed

text \<open>
  Claim C8. The constructor fails for capacity 0, for every function: no store is made.
\<close>

theorem zero_capacity_rejected:
  "lru_cache_using_std f 0 = Inl AssertionFailed"
  by (simp add: lru_cache_using_std_def)

text \<open>
  Claim C9. \<^verbatim>\<open>has(k)\<close> tells whether the key is in the map, and as an operation on
  the store it returns the store it was given: map, list, size and all else are the same.
\<close>

theorem has_no_mutation:
  "has s k = (k \<in> fmdom' (key_to_value s)) \<and>
   apply_op s (Op_has k) = Inr (Ret_bool (k \<in> fmdom' (key_to_value s)), s)"
  by (auto simp: has_def fmlookup_dom'_iff)

text \<open>
  Claim C10. On a full store, \<^verbatim>\<open>set(k, v)\<close> for an absent key drops the record at
  the front of the list (the least recently used) and appends the key as the most recent;
  the publishing section of the coordinated cache (lines 112-116) does exactly this to its
  underlying store.
\<close>

theorem publish_on_full_store_evicts:
  assumes "invar s" "fmlookup (key_to_value s) k = None" "is_full s"
  shows "\<exists>n rest it. key_tracker s = n # rest \<and>
           set_value s k v =
             Inr (s\<lparr>key_tracker := rest @ [(it, k)],
                    key_to_value := fmupd k (v, it) (fmdrop (snd n) (key_to_value s))\<rparr>) \<and>
           publish (c\<lparr>underlying_lru_cache := s\<rparr>) k v =
             Inr (c\<lparr>underlying_lru_cache :=
                      s\<lparr>key_tracker := rest @ [(it, k)],
                        key_to_value := fmupd k (v, it) (fmdrop (snd n) (key_to_value s))\<rparr>\<rparr>)"
proof -
  from insert_kv_full [OF assms, of v] obtain n rest where
    t: "key_tracker s = n # rest" and
    ins: "insert_kv s k v =
           Inr (s\<lparr>key_tracker := rest @ [(fresh_node rest, k)],
                 key_to_value := fmupd k (v, fresh_node rest) (fmdrop (snd n) (key_to_value s))\<rparr>)"
    by blast
  have sv: "set_value s k v =
           Inr (s\<lparr>key_tracker := rest @ [(fresh_node rest, k)],
                 key_to_value := fmupd k (v, fresh_node rest) (fmdrop (snd n) (key_to_value s))\<rparr>)"
    using assms(2) ins by (simp add: set_value_def)
  then have "publish (c\<lparr>underlying_lru_cache := s\<rparr>) k v =
             Inr (c\<lparr>underlying_lru_cache :=
                      s\<lparr>key_tracker := rest @ [(fresh_node rest, k)],
                        key_to_value := fmupd k (v, fresh_node rest) (fmdrop (snd n) (key_to_value s))\<rparr>\<rparr>)"
    using assms(2) by (simp add: publish_def has_def)
  with t sv show ?thesis by blast
qed

theorem publish_on_full_store_evicts_witness:
  "invar example_store \<and> fmlookup (key_to_value example_store) 9 = None \<and>
   is_full example_store \<and>
   (\<exists>it. set_value example_store 9 90 =
       Inr (example_store\<lparr>key_tracker := [(2, 7), (it, 9)],
              key_to_value := fmupd 9 (90, it) (fmdrop 5 (key_to_value example_store))\<rparr>) \<and>
     publish \<lparr>underlying_lru_cache = example_store, shared_fn = fn example_store,
              is_being_evaluated = fmempty,
              hit_rate = \<lparr>calls = 3, hits = 0, late_hits = 0\<rparr>\<rparr> 9 90 =
       Inr \<lparr>underlying_lru_cache =
              example_store\<lparr>key_tracker := [(2, 7), (it, 9)],
                key_to_value := fmupd 9 (90, it) (fmdrop 5 (key_to_value example_store))\<rparr>,
            shared_fn = fn example_store, is_being_evaluated = fmempty,
            hit_rate = \<lparr>calls = 3, hits = 0, late_hits = 0\<rparr>\<rparr>)"
proof -
  have m: "fmlookup (key_to_value example_store) 9 = None"
    by (simp add: example_store_def)
  from publish_on_full_store_evicts [OF invar_example_store m is_full_example_store, of 90
      "\<lparr>underlying_lru_cache = example_store, shared_fn = fn example_store,
              is_being_evaluated = fmempty,
              hit_rate = \<lparr>calls = 3, hits = 0, late_hits = 0\<rparr>\<rparr>"]
  obtain n rest it where a: "key_tracker example_store = n # rest"
    "set_value example_store 9 90 =
       Inr (example_store\<lparr>key_tracker := rest @ [(it, 9)],
              key_to_value := fmupd 9 (90, it) (fmdrop (snd n) (key_to_value example_store))\<rparr>)"
    "publish \<lparr>underlying_lru_cache = example_store, shared_fn = fn example_store,
              is_being_evaluated = fmempty,
              hit_rate = \<lparr>calls = 3, hits = 0, late_hits = 0\<rparr>\<rparr> 9 90 =
       Inr \<lparr>underlying_lru_cache =
              example_store\<lparr>key_tracker := rest @ [(it, 9)],
                key_to_value := fmupd 9 (90, it) (fmdrop (snd n) (key_to_value example_store))\<rparr>,
            shared_fn = fn example_store, is_being_evaluated = fmempty,
            hit_rate = \<lparr>calls = 3, hits = 0, late_hits = 0\<rparr>\<rparr>"
    by auto
  from a(1) have "n = (1, 5)" "rest = [(2, 7)]" by (simp_all add: example_store_def)
  with a(2,3) show ?thesis
    using invar_example_store m is_full_example_store by auto
qed

section \<open>Properties of the coordinated cache\<close>

subsection \<open>Runs\<close>

lemma position_cache_update [simp]: "position (w\<lparr>cache := c\<rparr>) = position w"
  by simp

lemma run_Cons_Finished:
  assumes "run w (a # as) = Finished evs w'"
  obtains ev w1 evs1 where "step w a = Next ev w1" "run w1 as = Finished evs1 w'" "evs = ev # evs1"
  using assms by (auto split: step_result.splits run_result.splits)

lemma run_append:
  "run w (xs @ ys) =
     (case run w xs of
        Finished evs1 w1 \<Rightarrow>
          (case run w1 ys of Finished evs2 w2 \<Rightarrow> Finished (evs1 @ evs2) w2 | r \<Rightarrow> r)
      | r \<Rightarrow> r)"
  by (induction xs arbitrary: w) (auto split: step_result.splits run_result.splits)

lemma new_world_initial:
  assumes "new_world f c = Inr w0"
  shows "position w0 = (\<lambda>t. Outside)" "hit_rate (cache w0) = \<lparr>calls = 0, hits = 0, late_hits = 0\<rparr>"
    "mutex_owner w0 = fmempty" "is_being_evaluated (cache w0) = fmempty" "shared_fn (cache w0) = f"
    "lru_cache_using_std f c = Inr (underlying_lru_cache (cache w0))"
  using assms
  by (auto simp: new_world_def shared_lru_cache_using_std_def split: sum.splits)

lemmas world_eval =
  new_world_def shared_lru_cache_using_std_def lru_cache_using_std_def request_def move_def
  fast_path_def enter_evaluation_def done_evaluation_def recheck_def publish_def
  has_def operator_call_def set_value_def insert_kv_def is_full_def evict_def splice_end_def
  fresh_node_def bump_counter_def fcard_finsert_if fcard_fempty Let_def

subsection \<open>No assertion fails while the cached function returns\<close>

text \<open>
  As long as \<^verbatim>\<open>_fn\<close> does not throw, the invariant of the threads holds in every
  interleaving, and with it the assertions of lines 82, 89 and 114 and the assertions of the
  store: at most one thread is between re-check and publication of a key.
\<close>

lemma operator_call_present:
  assumes "invar s" "has s k"
  shows "\<exists>v s'. operator_call s k = Inr (v, s') \<and> invar s' \<and> key_to_value s' = key_to_value s"
proof -
  from assms(2) have "fmlookup (key_to_value s) k \<noteq> None"
    by (simp add: has_def)
  then obtain v it where lk: "fmlookup (key_to_value s) k = Some (v, it)"
    by (cases "fmlookup (key_to_value s) k") auto
  from operator_call_hit [OF assms(1) lk] invar_moved [OF assms(1) lk]
  show ?thesis by simp
qed

lemma set_value_absent:
  assumes "invar s" "\<not> has s k"
  shows "\<exists>s'. set_value s k v = Inr s' \<and> invar s' \<and> (\<forall>k'. has s' k' \<longrightarrow> has s k' \<or> k' = k)"
proof -
  from assms(2) have none: "fmlookup (key_to_value s) k = None"
    by (cases "fmlookup (key_to_value s) k") (simp_all add: has_def)
  show ?thesis
  proof (cases "is_full s")
    case True
    from insert_kv_full [OF assms(1) none True, of v] obtain n rest where
      "key_tracker s = n # rest"
      "insert_kv s k v =
         Inr (s\<lparr>key_tracker := rest @ [(fresh_node rest, k)],
               key_to_value := fmupd k (v, fresh_node rest) (fmdrop (snd n) (key_to_value s))\<rparr>)"
      "invar (s\<lparr>key_tracker := rest @ [(fresh_node rest, k)],
               key_to_value := fmupd k (v, fresh_node rest) (fmdrop (snd n) (key_to_value s))\<rparr>)"
      by blast
    then show ?thesis using none by (auto simp: set_value_def has_def split: if_splits)
  next
    case False
    from insert_kv_room [OF assms(1) none False, of v]
    show ?thesis using none by (auto simp: set_value_def has_def split: if_splits)
  qed
qed

lemma in_ticket_fmupd:
  "in_ticket (c\<lparr>is_being_evaluated := fmupd k i (is_being_evaluated c)\<rparr>) t' k' =
     (if k' = k then t' \<in> active_threads i else in_ticket c t' k')"
  by (simp add: in_ticket_def)

lemma in_ticket_fmdrop:
  "in_ticket (c\<lparr>is_being_evaluated := fmdrop k (is_being_evaluated c)\<rparr>) t' k' =
     (if k' = k then False else in_ticket c t' k')"
  by (simp add: in_ticket_def)

lemma ticket_mutex_fmupd:
  "ticket_mutex (c\<lparr>is_being_evaluated := fmupd k i (is_being_evaluated c)\<rparr>) k' =
     (if k' = k then Some (mutex i) else ticket_mutex c k')"
  by (simp add: ticket_mutex_def)

lemma ticket_mutex_fmdrop:
  "ticket_mutex (c\<lparr>is_being_evaluated := fmdrop k (is_being_evaluated c)\<rparr>) k' =
     (if k' = k then None else ticket_mutex c k')"
  by (simp add: ticket_mutex_def)

lemma enter_evaluation_effect:
  assumes "\<not> in_ticket c t k"
  shows "\<exists>m c'. enter_evaluation c n t k = Inr (m, c') \<and>
           underlying_lru_cache c' = underlying_lru_cache c \<and> shared_fn c' = shared_fn c \<and>
           (\<forall>t' k'. in_ticket c' t' k' \<longleftrightarrow> in_ticket c t' k' \<or> (t' = t \<and> k' = k)) \<and>
           ticket_mutex c' k = Some m \<and>
           (\<forall>k'. ticket_mutex c k' \<noteq> None \<longrightarrow> ticket_mutex c' k' = ticket_mutex c k')"
proof -
  define i where "i = (case fmlookup (is_being_evaluated c) k of
                 None \<Rightarrow> \<lparr>mutex = n, active_threads = {}\<rparr>
               | Some i \<Rightarrow> i)"
  define c' where "c' = c\<lparr>is_being_evaluated :=
                       fmupd k (i\<lparr>active_threads := insert t (active_threads i)\<rparr>)
                         (is_being_evaluated c)\<rparr>"
  have notin: "t \<notin> active_threads i"
    using assms by (simp add: i_def in_ticket_def split: option.splits)
  then have ee: "enter_evaluation c n t k = Inr (mutex i, c')"
    by (simp add: enter_evaluation_def c'_def i_def Let_def)
  have old: "in_ticket c t' k \<longleftrightarrow> t' \<in> active_threads i" for t'
    by (simp add: i_def in_ticket_def split: option.splits)
  have a: "\<forall>t' k'. in_ticket c' t' k' \<longleftrightarrow> in_ticket c t' k' \<or> (t' = t \<and> k' = k)"
    using old by (auto simp: c'_def in_ticket_fmupd)
  have b: "ticket_mutex c' k = Some (mutex i)"
    by (simp add: c'_def ticket_mutex_fmupd)
  have d: "\<forall>k'. ticket_mutex c k' \<noteq> None \<longrightarrow> ticket_mutex c' k' = ticket_mutex c k'"
    by (auto simp: c'_def ticket_mutex_fmupd) (auto simp: ticket_mutex_def i_def)
  have e: "underlying_lru_cache c' = underlying_lru_cache c" "shared_fn c' = shared_fn c"
    by (simp_all add: c'_def)
  from ee a b d e show ?thesis by blast
qed

lemma done_evaluation_effect:
  assumes "in_ticket c t k"
  shows "\<exists>c'. done_evaluation c t k = Inr c' \<and>
           underlying_lru_cache c' = underlying_lru_cache c \<and> shared_fn c' = shared_fn c \<and>
           hit_rate c' = hit_rate c \<and>
           (\<forall>t' k'. in_ticket c' t' k' \<longleftrightarrow> in_ticket c t' k' \<and> \<not> (t' = t \<and> k' = k)) \<and>
           (\<forall>t' k'. in_ticket c' t' k' \<longrightarrow> ticket_mutex c' k' = ticket_mutex c k')"
proof -
  from assms obtain i where i: "fmlookup (is_being_evaluated c) k = Some i" "t \<in> active_threads i"
    by (auto simp: in_ticket_def split: option.splits)
  have old: "in_ticket c t' k \<longleftrightarrow> t' \<in> active_threads i" for t'
    using i(1) by (simp add: in_ticket_def)
  have oldm: "ticket_mutex c k = Some (mutex i)"
    using i(1) by (simp add: ticket_mutex_def)
  show ?thesis
  proof (cases "active_threads i - {t} = {}")
    case True
    then have only: "t' \<in> active_threads i \<longleftrightarrow> t' = t" for t' using i(2) by auto
    define c' where "c' = c\<lparr>is_being_evaluated := fmdrop k (is_being_evaluated c)\<rparr>"
    from i True have de: "done_evaluation c t k = Inr c'"
      by (simp add: done_evaluation_def c'_def)
    have a: "\<forall>t' k'. in_ticket c' t' k' \<longleftrightarrow> in_ticket c t' k' \<and> \<not> (t' = t \<and> k' = k)"
      using old only by (auto simp: c'_def in_ticket_fmdrop)
    have b: "\<forall>t' k'. in_ticket c' t' k' \<longrightarrow> ticket_mutex c' k' = ticket_mutex c k'"
      by (auto simp: c'_def in_ticket_fmdrop ticket_mutex_fmdrop split: if_splits)
    have e: "underlying_lru_cache c' = underlying_lru_cache c" "shared_fn c' = shared_fn c"
      "hit_rate c' = hit_rate c"
      by (simp_all add: c'_def)
    from de a b e show ?thesis by blast
  next
    case False
    define c' where "c' = c\<lparr>is_being_evaluated :=
               fmupd k (i\<lparr>active_threads := active_threads i - {t}\<rparr>) (is_being_evaluated c)\<rparr>"
    from i False have de: "done_evaluation c t k = Inr c'"
      by (simp add: done_evaluation_def Let_def c'_def)
    have a: "\<forall>t' k'. in_ticket c' t' k' \<longleftrightarrow> in_ticket c t' k' \<and> \<not> (t' = t \<and> k' = k)"
      using old by (auto simp: c'_def in_ticket_fmupd)
    have b: "\<forall>t' k'. in_ticket c' t' k' \<longrightarrow> ticket_mutex c' k' = ticket_mutex c k'"
      using oldm by (auto simp: c'_def ticket_mutex_fmupd)
    have e: "underlying_lru_cache c' = underlying_lru_cache c" "shared_fn c' = shared_fn c"
      "hit_rate c' = hit_rate c"
      by (simp_all add: c'_def)
    from de a b e show ?thesis by blast
  qed
qed

lemma in_ticket_registry:
  "is_being_evaluated c' = is_being_evaluated c \<Longrightarrow> in_ticket c' = in_ticket c"
  by (auto simp: in_ticket_def fun_eq_iff)

lemma ticket_mutex_registry:
  "is_being_evaluated c' = is_being_evaluated c \<Longrightarrow> ticket_mutex c' = ticket_mutex c"
  by (auto simp: ticket_mutex_def fun_eq_iff)

lemma fast_path_effect:
  assumes "invar (underlying_lru_cache c)"
  shows "\<exists>r c'. fast_path c k = Inr (r, c') \<and> invar (underlying_lru_cache c') \<and>
           (\<forall>k'. has (underlying_lru_cache c') k' = has (underlying_lru_cache c) k') \<and>
           is_being_evaluated c' = is_being_evaluated c \<and> shared_fn c' = shared_fn c"
proof (cases "has (underlying_lru_cache c) k")
  case True
  from operator_call_present [OF assms True] obtain v u where
    u: "operator_call (underlying_lru_cache c) k = Inr (v, u)" "invar u"
       "key_to_value u = key_to_value (underlying_lru_cache c)"
    by blast
  from u(3) have "\<forall>k'. has u k' = has (underlying_lru_cache c) k'" by (simp add: has_def)
  with True u(1,2) show ?thesis by (simp add: fast_path_def Let_def)
next
  case False
  with assms show ?thesis by (simp add: fast_path_def Let_def)
qed

lemma recheck_effect:
  assumes "invar (underlying_lru_cache c)" "in_ticket c t k"
  shows "(\<not> has (underlying_lru_cache c) k \<and> recheck c t k = Inr (None, c)) \<or>
         (\<exists>v c'. recheck c t k = Inr (Some v, c') \<and> invar (underlying_lru_cache c') \<and>
            (\<forall>k'. has (underlying_lru_cache c') k' = has (underlying_lru_cache c) k') \<and>
            shared_fn c' = shared_fn c \<and>
            (\<forall>t' k'. in_ticket c' t' k' \<longleftrightarrow> in_ticket c t' k' \<and> \<not> (t' = t \<and> k' = k)) \<and>
            (\<forall>t' k'. in_ticket c' t' k' \<longrightarrow> ticket_mutex c' k' = ticket_mutex c k'))"
proof (cases "has (underlying_lru_cache c) k")
  case False
  then show ?thesis by (simp add: recheck_def)
next
  case True
  from operator_call_present [OF assms(1) True] obtain v u where
    u: "operator_call (underlying_lru_cache c) k = Inr (v, u)" "invar u"
       "key_to_value u = key_to_value (underlying_lru_cache c)"
    by blast
  let ?c1 = "c\<lparr>underlying_lru_cache := u\<rparr>"
  have reg: "is_being_evaluated ?c1 = is_being_evaluated c" by simp
  have "in_ticket ?c1 t k" using assms(2) in_ticket_registry [OF reg] by simp
  from done_evaluation_effect [OF this] obtain c2 where
    c2: "done_evaluation ?c1 t k = Inr c2"
      "underlying_lru_cache c2 = underlying_lru_cache ?c1" "shared_fn c2 = shared_fn ?c1"
      "\<forall>t' k'. in_ticket c2 t' k' \<longleftrightarrow> in_ticket ?c1 t' k' \<and> \<not> (t' = t \<and> k' = k)"
      "\<forall>t' k'. in_ticket c2 t' k' \<longrightarrow> ticket_mutex c2 k' = ticket_mutex ?c1 k'"
    by blast
  let ?c' = "c2\<lparr>hit_rate := (hit_rate c2)\<lparr>late_hits := late_hits (hit_rate c2) + 1\<rparr>\<rparr>"
  have reg': "is_being_evaluated ?c' = is_being_evaluated c2" by simp
  have r: "recheck c t k = Inr (Some v, ?c')"
    using True u(1) c2(1) by (simp add: recheck_def Let_def)
  have a: "invar (underlying_lru_cache ?c')" using c2(2) u(2) by simp
  have b: "\<forall>k'. has (underlying_lru_cache ?c') k' = has (underlying_lru_cache c) k'"
    using c2(2) u(3) by (simp add: has_def)
  have d: "shared_fn ?c' = shared_fn c" using c2(3) by simp
  have e: "\<forall>t' k'. in_ticket ?c' t' k' \<longleftrightarrow> in_ticket c t' k' \<and> \<not> (t' = t \<and> k' = k)"
    using c2(4) in_ticket_registry [OF reg] in_ticket_registry [OF reg'] by simp
  have f: "\<forall>t' k'. in_ticket ?c' t' k' \<longrightarrow> ticket_mutex ?c' k' = ticket_mutex c k'"
    using c2(5) in_ticket_registry [OF reg'] ticket_mutex_registry [OF reg]
      ticket_mutex_registry [OF reg'] by simp
  from r a b d e f show ?thesis by blast
qed

lemma publish_effect:
  assumes "invar (underlying_lru_cache c)" "\<not> has (underlying_lru_cache c) k"
  shows "\<exists>c'. publish c k v = Inr c' \<and> invar (underlying_lru_cache c') \<and>
           (\<forall>k'. has (underlying_lru_cache c') k' \<longrightarrow> has (underlying_lru_cache c) k' \<or> k' = k) \<and>
           is_being_evaluated c' = is_being_evaluated c \<and> shared_fn c' = shared_fn c"
proof -
  from set_value_absent [OF assms, of v] obtain u where
    "set_value (underlying_lru_cache c) k v = Inr u" "invar u"
    "\<forall>k'. has u k' \<longrightarrow> has (underlying_lru_cache c) k' \<or> k' = k"
    by blast
  with assms(2) show ?thesis by (simp add: publish_def)
qed

lemma mutual_exclusion:
  assumes "world_invar w" "computing (position w t) = Some k" "computing (position w t') = Some k"
  shows "t = t'"
proof -
  from assms(2) obtain m where m: "registered_for (position w t) = Some (k, m)"
    "holds (position w t) = Some m"
    by (cases "position w t") auto
  from assms(3) obtain m' where m': "registered_for (position w t') = Some (k, m')"
    "holds (position w t') = Some m'"
    by (cases "position w t'") auto
  from assms(1) m(1) m'(1) have "ticket_mutex (cache w) k = Some m" "ticket_mutex (cache w) k = Some m'"
    unfolding world_invar_def by blast+
  then have "m' = m" by simp
  moreover from assms(1) m(2) m'(2) have "fmlookup (mutex_owner w) m = Some t"
    "fmlookup (mutex_owner w) m' = Some t'"
    unfolding world_invar_def by blast+
  ultimately show ?thesis by simp
qed

lemma world_invar_step:
  assumes inv: "world_invar w"
    and pos: "position w' = (position w)(t := p')"
    and store: "invar (underlying_lru_cache (cache w'))"
    and tick: "\<And>t' k'. in_ticket (cache w') t' k' \<longleftrightarrow>
                 (if t' = t then (\<exists>m. registered_for p' = Some (k', m))
                  else in_ticket (cache w) t' k')"
    and mut: "\<And>t' k'. in_ticket (cache w') t' k' \<Longrightarrow> t' \<noteq> t \<Longrightarrow>
                 ticket_mutex (cache w') k' = ticket_mutex (cache w) k'"
    and mut_t: "\<And>k m. registered_for p' = Some (k, m) \<Longrightarrow> ticket_mutex (cache w') k = Some m"
    and own: "\<And>t' m. fmlookup (mutex_owner w') m = Some t' \<longleftrightarrow>
                 (if t' = t then holds p' = Some m else fmlookup (mutex_owner w) m = Some t')"
    and comp_t: "\<And>k. computing p' = Some k \<Longrightarrow> \<not> has (underlying_lru_cache (cache w')) k"
    and comp_o: "\<And>t' k. t' \<noteq> t \<Longrightarrow> computing (position w t') = Some k \<Longrightarrow>
                 \<not> has (underlying_lru_cache (cache w')) k"
  shows "world_invar w'"
proof -
  from inv have
    i2: "\<And>t k. in_ticket (cache w) t k \<longleftrightarrow> (\<exists>m. registered_for (position w t) = Some (k, m))" and
    i3: "\<And>t k m. registered_for (position w t) = Some (k, m) \<Longrightarrow> ticket_mutex (cache w) k = Some m" and
    i4: "\<And>t m. fmlookup (mutex_owner w) m = Some t \<longleftrightarrow> holds (position w t) = Some m"
    unfolding world_invar_def by blast+
  have a: "in_ticket (cache w') t' k \<longleftrightarrow> (\<exists>m. registered_for (position w' t') = Some (k, m))" for t' k
    using tick [of t' k] i2 [of t' k] pos by (cases "t' = t") simp_all
  have b: "ticket_mutex (cache w') k = Some m" if "registered_for (position w' t') = Some (k, m)" for t' k m
  proof (cases "t' = t")
    case True
    with that pos show ?thesis by (simp add: mut_t)
  next
    case False
    with that pos have r: "registered_for (position w t') = Some (k, m)" by simp
    then have "in_ticket (cache w) t' k" using i2 [of t' k] by blast
    then have "in_ticket (cache w') t' k" using tick [of t' k] False by simp
    from mut [OF this False] i3 [OF r] show ?thesis by simp
  qed
  have c: "fmlookup (mutex_owner w') m = Some t' \<longleftrightarrow> holds (position w' t') = Some m" for t' m
    using own [of m t'] i4 [of m t'] pos by (cases "t' = t") simp_all
  have d: "\<not> has (underlying_lru_cache (cache w')) k" if "computing (position w' t') = Some k" for t' k
  proof (cases "t' = t")
    case True
    with that pos show ?thesis by (simp add: comp_t)
  next
    case False
    with that pos have "computing (position w t') = Some k" by simp
    from comp_o [OF False this] show ?thesis .
  qed
  show ?thesis
    unfolding world_invar_def using store a b c d by blast
qed

lemma world_invarD:
  assumes "world_invar w"
  shows "invar (underlying_lru_cache (cache w))"
    and "\<And>t k. in_ticket (cache w) t k \<longleftrightarrow> (\<exists>m. registered_for (position w t) = Some (k, m))"
    and "\<And>t k m. registered_for (position w t) = Some (k, m) \<Longrightarrow> ticket_mutex (cache w) k = Some m"
    and "\<And>t m. fmlookup (mutex_owner w) m = Some t \<longleftrightarrow> holds (position w t) = Some m"
    and "\<And>t k. computing (position w t) = Some k \<Longrightarrow> \<not> has (underlying_lru_cache (cache w)) k"
  using assms unfolding world_invar_def by blast+

lemma request_safe:
  assumes inv: "world_invar w" and out: "position w t = Outside"
  shows "\<exists>ev w'. request w t k = Next ev w' \<and> world_invar w' \<and>
           shared_fn (cache w') = shared_fn (cache w)"
proof -
  note i = world_invarD [OF inv]
  from fast_path_effect [OF i(1), of k] obtain r c where
    c: "fast_path (cache w) k = Inr (r, c)" "invar (underlying_lru_cache c)"
       "\<forall>k'. has (underlying_lru_cache c) k' = has (underlying_lru_cache (cache w)) k'"
       "is_being_evaluated c = is_being_evaluated (cache w)" "shared_fn c = shared_fn (cache w)"
    by blast
  note reg = in_ticket_registry [OF c(4)] ticket_mutex_registry [OF c(4)]
  show ?thesis
  proof (cases r)
    case None
    let ?w' = "move (w\<lparr>cache := c\<rparr>) t (Line_70 k)"
    have "world_invar ?w'"
    proof (rule world_invar_step [OF inv, where t = t and p' = "Line_70 k"])
      show "position ?w' = (position w)(t := Line_70 k)" by (simp add: move_def)
      show "invar (underlying_lru_cache (cache ?w'))" using c(2) by (simp add: move_def)
      show "in_ticket (cache ?w') t' k' \<longleftrightarrow>
              (if t' = t then (\<exists>m. registered_for (Line_70 k) = Some (k', m))
               else in_ticket (cache w) t' k')" for t' k'
        using i(2) [of t k'] out by (simp add: move_def reg)
      show "ticket_mutex (cache ?w') k' = ticket_mutex (cache w) k'" for k'
        by (simp add: move_def reg)
      show "registered_for (Line_70 k) = Some (k', m) \<Longrightarrow> ticket_mutex (cache ?w') k' = Some m" for k' m
        by simp
      show "fmlookup (mutex_owner ?w') m = Some t' \<longleftrightarrow>
              (if t' = t then holds (Line_70 k) = Some m else fmlookup (mutex_owner w) m = Some t')" for t' m
        using i(4) [of m t] out by (simp add: move_def)
      show "computing (Line_70 k) = Some k' \<Longrightarrow> \<not> has (underlying_lru_cache (cache ?w')) k'" for k'
        by simp
      show "computing (position w t') = Some k' \<Longrightarrow> \<not> has (underlying_lru_cache (cache ?w')) k'" for t' k'
        using i(5) [of t' k'] c(3) by (simp add: move_def)
    qed
    with None c(1,5) show ?thesis by (simp add: request_def move_def)
  next
    case (Some v)
    let ?w' = "w\<lparr>cache := c\<rparr>"
    have "world_invar ?w'"
    proof (rule world_invar_step [OF inv, where t = t and p' = Outside])
      show "position ?w' = (position w)(t := Outside)" using out by auto
      show "invar (underlying_lru_cache (cache ?w'))" using c(2) by simp
      show "in_ticket (cache ?w') t' k' \<longleftrightarrow>
              (if t' = t then (\<exists>m. registered_for Outside = Some (k', m))
               else in_ticket (cache w) t' k')" for t' k'
        using i(2) [of t k'] out by (simp add: reg)
      show "ticket_mutex (cache ?w') k' = ticket_mutex (cache w) k'" for k'
        by (simp add: reg)
      show "registered_for Outside = Some (k', m) \<Longrightarrow> ticket_mutex (cache ?w') k' = Some m" for k' m
        by simp
      show "fmlookup (mutex_owner ?w') m = Some t' \<longleftrightarrow>
              (if t' = t then holds Outside = Some m else fmlookup (mutex_owner w) m = Some t')" for t' m
        using i(4) [of m t] out by simp
      show "computing Outside = Some k' \<Longrightarrow> \<not> has (underlying_lru_cache (cache ?w')) k'" for k'
        by simp
      show "computing (position w t') = Some k' \<Longrightarrow> \<not> has (underlying_lru_cache (cache ?w')) k'" for t' k'
        using i(5) [of t' k'] c(3) by simp
    qed
    with Some c(1,5) show ?thesis by (simp add: request_def)
  qed
qed

lemma in_ticket_has_mutex: "in_ticket c t k \<Longrightarrow> ticket_mutex c k \<noteq> None"
  by (auto simp: in_ticket_def ticket_mutex_def split: option.splits)

lemma register_safe:
  assumes inv: "world_invar w" and at: "position w t = Line_70 k"
  shows "\<exists>ev w'. advance w t (Line_70 k) = Next ev w' \<and> world_invar w' \<and>
           shared_fn (cache w') = shared_fn (cache w)"
proof -
  note i = world_invarD [OF inv]
  have notin: "\<not> in_ticket (cache w) t k'" for k'
    using i(2) [of t k'] at by simp
  from enter_evaluation_effect [OF notin [of k], where n = "mutexes_allocated w"] obtain m c where
    c: "enter_evaluation (cache w) (mutexes_allocated w) t k = Inr (m, c)"
       "underlying_lru_cache c = underlying_lru_cache (cache w)" "shared_fn c = shared_fn (cache w)"
       "\<forall>t' k'. in_ticket c t' k' \<longleftrightarrow> in_ticket (cache w) t' k' \<or> (t' = t \<and> k' = k)"
       "ticket_mutex c k = Some m"
       "\<forall>k'. ticket_mutex (cache w) k' \<noteq> None \<longrightarrow> ticket_mutex c k' = ticket_mutex (cache w) k'"
    by blast
  define n where "n = (if fmlookup (is_being_evaluated (cache w)) k = None
                        then Suc (mutexes_allocated w) else mutexes_allocated w)"
  let ?w' = "move (w\<lparr>cache := c, mutexes_allocated := n\<rparr>) t (Line_96 k m)"
  have "world_invar ?w'"
  proof (rule world_invar_step [OF inv, where t = t and p' = "Line_96 k m"])
    show "position ?w' = (position w)(t := Line_96 k m)" by (simp add: move_def)
    show "invar (underlying_lru_cache (cache ?w'))" using c(2) i(1) by (simp add: move_def)
    show "in_ticket (cache ?w') t' k' \<longleftrightarrow>
            (if t' = t then (\<exists>m'. registered_for (Line_96 k m) = Some (k', m'))
             else in_ticket (cache w) t' k')" for t' k'
      using c(4) notin [of k'] by (auto simp: move_def)
    show "ticket_mutex (cache ?w') k' = ticket_mutex (cache w) k'"
      if "in_ticket (cache ?w') t' k'" "t' \<noteq> t" for t' k'
    proof -
      from that c(4) have "in_ticket (cache w) t' k'" by (simp add: move_def)
      then have "ticket_mutex (cache w) k' \<noteq> None" by (rule in_ticket_has_mutex)
      with c(6) show ?thesis by (simp add: move_def)
    qed
    show "registered_for (Line_96 k m) = Some (k', m') \<Longrightarrow> ticket_mutex (cache ?w') k' = Some m'" for k' m'
      using c(5) by (simp add: move_def)
    show "fmlookup (mutex_owner ?w') m' = Some t' \<longleftrightarrow>
            (if t' = t then holds (Line_96 k m) = Some m' else fmlookup (mutex_owner w) m' = Some t')" for t' m'
      using i(4) [of m' t] at by (simp add: move_def)
    show "computing (Line_96 k m) = Some k' \<Longrightarrow> \<not> has (underlying_lru_cache (cache ?w')) k'" for k'
      by simp
    show "computing (position w t') = Some k' \<Longrightarrow> \<not> has (underlying_lru_cache (cache ?w')) k'" for t' k'
      using i(5) [of t' k'] c(2) by (simp add: move_def)
  qed
  with c(1,3) show ?thesis by (simp add: move_def n_def)
qed

lemma lock_safe:
  assumes inv: "world_invar w" and at: "position w t = Line_96 k m"
  shows "advance w t (Line_96 k m) = Not_enabled \<or>
         (\<exists>ev w'. advance w t (Line_96 k m) = Next ev w' \<and> world_invar w' \<and>
           shared_fn (cache w') = shared_fn (cache w))"
proof (cases "fmlookup (mutex_owner w) m")
  case (Some owner)
  then show ?thesis by simp
next
  case None
  note i = world_invarD [OF inv]
  let ?w' = "move (w\<lparr>mutex_owner := fmupd m t (mutex_owner w)\<rparr>) t (Line_97 k m)"
  have "world_invar ?w'"
  proof (rule world_invar_step [OF inv, where t = t and p' = "Line_97 k m"])
    show "position ?w' = (position w)(t := Line_97 k m)" by (simp add: move_def)
    show "invar (underlying_lru_cache (cache ?w'))" using i(1) by (simp add: move_def)
    show "in_ticket (cache ?w') t' k' \<longleftrightarrow>
            (if t' = t then (\<exists>m'. registered_for (Line_97 k m) = Some (k', m'))
             else in_ticket (cache w) t' k')" for t' k'
      using i(2) [of t k'] at by (auto simp: move_def)
    show "ticket_mutex (cache ?w') k' = ticket_mutex (cache w) k'" for k'
      by (simp add: move_def)
    show "registered_for (Line_97 k m) = Some (k', m') \<Longrightarrow> ticket_mutex (cache ?w') k' = Some m'" for k' m'
      using i(3) [of t k' m'] at by (simp add: move_def)
    show "fmlookup (mutex_owner ?w') m' = Some t' \<longleftrightarrow>
            (if t' = t then holds (Line_97 k m) = Some m' else fmlookup (mutex_owner w) m' = Some t')" for t' m'
      using i(4) [of m' t] at None by (auto simp: move_def)
    show "computing (Line_97 k m) = Some k' \<Longrightarrow> \<not> has (underlying_lru_cache (cache ?w')) k'" for k'
      by simp
    show "computing (position w t') = Some k' \<Longrightarrow> \<not> has (underlying_lru_cache (cache ?w')) k'" for t' k'
      using i(5) [of t' k'] by (simp add: move_def)
  qed
  with None show ?thesis by (simp add: move_def)
qed

lemma recheck_safe:
  assumes inv: "world_invar w" and at: "position w t = Line_97 k m"
  shows "\<exists>ev w'. advance w t (Line_97 k m) = Next ev w' \<and> world_invar w' \<and>
           shared_fn (cache w') = shared_fn (cache w)"
proof -
  note i = world_invarD [OF inv]
  have mem: "in_ticket (cache w) t k' \<longleftrightarrow> k' = k" for k'
    using i(2) [of t k'] at by auto
  then have "in_ticket (cache w) t k" by simp
  from recheck_effect [OF i(1) this] show ?thesis
  proof
    assume miss: "\<not> has (underlying_lru_cache (cache w)) k \<and> recheck (cache w) t k = Inr (None, cache w)"
    let ?w' = "move w t (Line_110 k m)"
    have "world_invar ?w'"
    proof (rule world_invar_step [OF inv, where t = t and p' = "Line_110 k m"])
      show "position ?w' = (position w)(t := Line_110 k m)" by (simp add: move_def)
      show "invar (underlying_lru_cache (cache ?w'))" using i(1) by (simp add: move_def)
      show "in_ticket (cache ?w') t' k' \<longleftrightarrow>
              (if t' = t then (\<exists>m'. registered_for (Line_110 k m) = Some (k', m'))
               else in_ticket (cache w) t' k')" for t' k'
        using mem [of k'] by (auto simp: move_def)
      show "ticket_mutex (cache ?w') k' = ticket_mutex (cache w) k'" for k'
        by (simp add: move_def)
      show "registered_for (Line_110 k m) = Some (k', m') \<Longrightarrow> ticket_mutex (cache ?w') k' = Some m'" for k' m'
        using i(3) [of t k' m'] at by (simp add: move_def)
      show "fmlookup (mutex_owner ?w') m' = Some t' \<longleftrightarrow>
              (if t' = t then holds (Line_110 k m) = Some m' else fmlookup (mutex_owner w) m' = Some t')" for t' m'
        using i(4) [of m' t] at by (simp add: move_def)
      show "computing (Line_110 k m) = Some k' \<Longrightarrow> \<not> has (underlying_lru_cache (cache ?w')) k'" for k'
        using miss by (simp add: move_def)
      show "computing (position w t') = Some k' \<Longrightarrow> \<not> has (underlying_lru_cache (cache ?w')) k'" for t' k'
        using i(5) [of t' k'] by (simp add: move_def)
    qed
    with miss show ?thesis by (simp add: move_def)
  next
    assume "\<exists>v c'. recheck (cache w) t k = Inr (Some v, c') \<and> invar (underlying_lru_cache c') \<and>
            (\<forall>k'. has (underlying_lru_cache c') k' = has (underlying_lru_cache (cache w)) k') \<and>
            shared_fn c' = shared_fn (cache w) \<and>
            (\<forall>t' k'. in_ticket c' t' k' \<longleftrightarrow> in_ticket (cache w) t' k' \<and> \<not> (t' = t \<and> k' = k)) \<and>
            (\<forall>t' k'. in_ticket c' t' k' \<longrightarrow> ticket_mutex c' k' = ticket_mutex (cache w) k')"
    then obtain v c where
      c: "recheck (cache w) t k = Inr (Some v, c)" "invar (underlying_lru_cache c)"
         "\<forall>k'. has (underlying_lru_cache c) k' = has (underlying_lru_cache (cache w)) k'"
         "shared_fn c = shared_fn (cache w)"
         "\<forall>t' k'. in_ticket c t' k' \<longleftrightarrow> in_ticket (cache w) t' k' \<and> \<not> (t' = t \<and> k' = k)"
         "\<forall>t' k'. in_ticket c t' k' \<longrightarrow> ticket_mutex c k' = ticket_mutex (cache w) k'"
      by blast
    let ?w' = "move (w\<lparr>cache := c\<rparr>) t (Line_119 m v)"
    have "world_invar ?w'"
    proof (rule world_invar_step [OF inv, where t = t and p' = "Line_119 m v"])
      show "position ?w' = (position w)(t := Line_119 m v)" by (simp add: move_def)
      show "invar (underlying_lru_cache (cache ?w'))" using c(2) by (simp add: move_def)
      show "in_ticket (cache ?w') t' k' \<longleftrightarrow>
              (if t' = t then (\<exists>m'. registered_for (Line_119 m v) = Some (k', m'))
               else in_ticket (cache w) t' k')" for t' k'
        using c(5) mem [of k'] by (auto simp: move_def)
      show "in_ticket (cache ?w') t' k' \<Longrightarrow> ticket_mutex (cache ?w') k' = ticket_mutex (cache w) k'" for t' k'
        using c(6) by (simp add: move_def)
      show "registered_for (Line_119 m v) = Some (k', m') \<Longrightarrow> ticket_mutex (cache ?w') k' = Some m'" for k' m'
        by simp
      show "fmlookup (mutex_owner ?w') m' = Some t' \<longleftrightarrow>
              (if t' = t then holds (Line_119 m v) = Some m' else fmlookup (mutex_owner w) m' = Some t')" for t' m'
        using i(4) [of m' t] at by (simp add: move_def)
      show "computing (Line_119 m v) = Some k' \<Longrightarrow> \<not> has (underlying_lru_cache (cache ?w')) k'" for k'
        by simp
      show "computing (position w t') = Some k' \<Longrightarrow> \<not> has (underlying_lru_cache (cache ?w')) k'" for t' k'
        using i(5) [of t' k'] c(3) by (simp add: move_def)
    qed
    with c(1,4) show ?thesis by (simp add: move_def)
  qed
qed

lemma compute_safe:
  assumes inv: "world_invar w" and at: "position w t = Line_110 k m"
    and total: "shared_fn (cache w) k \<noteq> None"
  shows "\<exists>ev w'. advance w t (Line_110 k m) = Next ev w' \<and> world_invar w' \<and>
           shared_fn (cache w') = shared_fn (cache w)"
proof -
  note i = world_invarD [OF inv]
  from total obtain v where v: "shared_fn (cache w) k = Some v" by auto
  let ?w' = "move w t (Line_112 k m v)"
  have "world_invar ?w'"
  proof (rule world_invar_step [OF inv, where t = t and p' = "Line_112 k m v"])
    show "position ?w' = (position w)(t := Line_112 k m v)" by (simp add: move_def)
    show "invar (underlying_lru_cache (cache ?w'))" using i(1) by (simp add: move_def)
    show "in_ticket (cache ?w') t' k' \<longleftrightarrow>
            (if t' = t then (\<exists>m'. registered_for (Line_112 k m v) = Some (k', m'))
             else in_ticket (cache w) t' k')" for t' k'
      using i(2) [of t k'] at by (auto simp: move_def)
    show "ticket_mutex (cache ?w') k' = ticket_mutex (cache w) k'" for k'
      by (simp add: move_def)
    show "registered_for (Line_112 k m v) = Some (k', m') \<Longrightarrow> ticket_mutex (cache ?w') k' = Some m'" for k' m'
      using i(3) [of t k' m'] at by (simp add: move_def)
    show "fmlookup (mutex_owner ?w') m' = Some t' \<longleftrightarrow>
            (if t' = t then holds (Line_112 k m v) = Some m' else fmlookup (mutex_owner w) m' = Some t')" for t' m'
      using i(4) [of m' t] at by (simp add: move_def)
    show "computing (Line_112 k m v) = Some k' \<Longrightarrow> \<not> has (underlying_lru_cache (cache ?w')) k'" for k'
      using i(5) [of t k'] at by (simp add: move_def)
    show "computing (position w t') = Some k' \<Longrightarrow> \<not> has (underlying_lru_cache (cache ?w')) k'" for t' k'
      using i(5) [of t' k'] by (simp add: move_def)
  qed
  with v show ?thesis by (simp add: move_def)
qed

lemma publish_safe:
  assumes inv: "world_invar w" and at: "position w t = Line_112 k m v"
  shows "\<exists>ev w'. advance w t (Line_112 k m v) = Next ev w' \<and> world_invar w' \<and>
           shared_fn (cache w') = shared_fn (cache w)"
proof -
  note i = world_invarD [OF inv]
  have absent: "\<not> has (underlying_lru_cache (cache w)) k"
    using i(5) [of t k] at by simp
  from publish_effect [OF i(1) absent, of v] obtain c where
    c: "publish (cache w) k v = Inr c" "invar (underlying_lru_cache c)"
       "\<forall>k'. has (underlying_lru_cache c) k' \<longrightarrow> has (underlying_lru_cache (cache w)) k' \<or> k' = k"
       "is_being_evaluated c = is_being_evaluated (cache w)" "shared_fn c = shared_fn (cache w)"
    by blast
  note reg = in_ticket_registry [OF c(4)] ticket_mutex_registry [OF c(4)]
  let ?w' = "move (w\<lparr>cache := c\<rparr>) t (Line_118 k m v)"
  have "world_invar ?w'"
  proof (rule world_invar_step [OF inv, where t = t and p' = "Line_118 k m v"])
    show "position ?w' = (position w)(t := Line_118 k m v)" by (simp add: move_def)
    show "invar (underlying_lru_cache (cache ?w'))" using c(2) by (simp add: move_def)
    show "in_ticket (cache ?w') t' k' \<longleftrightarrow>
            (if t' = t then (\<exists>m'. registered_for (Line_118 k m v) = Some (k', m'))
             else in_ticket (cache w) t' k')" for t' k'
      using i(2) [of t k'] at by (auto simp: move_def reg)
    show "ticket_mutex (cache ?w') k' = ticket_mutex (cache w) k'" for k'
      by (simp add: move_def reg)
    show "registered_for (Line_118 k m v) = Some (k', m') \<Longrightarrow> ticket_mutex (cache ?w') k' = Some m'" for k' m'
      using i(3) [of t k' m'] at by (simp add: move_def reg)
    show "fmlookup (mutex_owner ?w') m' = Some t' \<longleftrightarrow>
            (if t' = t then holds (Line_118 k m v) = Some m' else fmlookup (mutex_owner w) m' = Some t')" for t' m'
      using i(4) [of m' t] at by (simp add: move_def)
    show "computing (Line_118 k m v) = Some k' \<Longrightarrow> \<not> has (underlying_lru_cache (cache ?w')) k'" for k'
      by simp
    show "\<not> has (underlying_lru_cache (cache ?w')) k'"
      if "t' \<noteq> t" "computing (position w t') = Some k'" for t' k'
    proof -
      have "k' \<noteq> k"
      proof
        assume "k' = k"
        with that(2) at have "computing (position w t') = Some k" "computing (position w t) = Some k"
          by simp_all
        from mutual_exclusion [OF inv this] that(1) show False by simp
      qed
      moreover have "\<not> has (underlying_lru_cache (cache w)) k'" using i(5) [OF that(2)] .
      ultimately show ?thesis using c(3) by (auto simp: move_def)
    qed
  qed
  with c(1,5) show ?thesis by (simp add: move_def)
qed

lemma deregister_safe:
  assumes inv: "world_invar w" and at: "position w t = Line_118 k m v"
  shows "\<exists>ev w'. advance w t (Line_118 k m v) = Next ev w' \<and> world_invar w' \<and>
           shared_fn (cache w') = shared_fn (cache w)"
proof -
  note i = world_invarD [OF inv]
  have mem: "in_ticket (cache w) t k' \<longleftrightarrow> k' = k" for k'
    using i(2) [of t k'] at by auto
  then have "in_ticket (cache w) t k" by simp
  from done_evaluation_effect [OF this] obtain c where
    c: "done_evaluation (cache w) t k = Inr c"
       "underlying_lru_cache c = underlying_lru_cache (cache w)" "shared_fn c = shared_fn (cache w)"
       "\<forall>t' k'. in_ticket c t' k' \<longleftrightarrow> in_ticket (cache w) t' k' \<and> \<not> (t' = t \<and> k' = k)"
       "\<forall>t' k'. in_ticket c t' k' \<longrightarrow> ticket_mutex c k' = ticket_mutex (cache w) k'"
    by blast
  let ?w' = "move (w\<lparr>cache := c\<rparr>) t (Line_119 m v)"
  have "world_invar ?w'"
  proof (rule world_invar_step [OF inv, where t = t and p' = "Line_119 m v"])
    show "position ?w' = (position w)(t := Line_119 m v)" by (simp add: move_def)
    show "invar (underlying_lru_cache (cache ?w'))" using c(2) i(1) by (simp add: move_def)
    show "in_ticket (cache ?w') t' k' \<longleftrightarrow>
            (if t' = t then (\<exists>m'. registered_for (Line_119 m v) = Some (k', m'))
             else in_ticket (cache w) t' k')" for t' k'
      using c(4) mem [of k'] by (auto simp: move_def)
    show "in_ticket (cache ?w') t' k' \<Longrightarrow> ticket_mutex (cache ?w') k' = ticket_mutex (cache w) k'" for t' k'
      using c(5) by (simp add: move_def)
    show "registered_for (Line_119 m v) = Some (k', m') \<Longrightarrow> ticket_mutex (cache ?w') k' = Some m'" for k' m'
      by simp
    show "fmlookup (mutex_owner ?w') m' = Some t' \<longleftrightarrow>
            (if t' = t then holds (Line_119 m v) = Some m' else fmlookup (mutex_owner w) m' = Some t')" for t' m'
      using i(4) [of m' t] at by (simp add: move_def)
    show "computing (Line_119 m v) = Some k' \<Longrightarrow> \<not> has (underlying_lru_cache (cache ?w')) k'" for k'
      by simp
    show "computing (position w t') = Some k' \<Longrightarrow> \<not> has (underlying_lru_cache (cache ?w')) k'" for t' k'
      using i(5) [of t' k'] c(2) by (simp add: move_def)
  qed
  with c(1,3) show ?thesis by (simp add: move_def)
qed

lemma return_safe:
  assumes inv: "world_invar w" and at: "position w t = Line_119 m v"
  shows "\<exists>ev w'. advance w t (Line_119 m v) = Next ev w' \<and> world_invar w' \<and>
           shared_fn (cache w') = shared_fn (cache w)"
proof -
  note i = world_invarD [OF inv]
  have mine: "fmlookup (mutex_owner w) m = Some t" using i(4) [of m t] at by simp
  let ?w' = "move (w\<lparr>mutex_owner := fmdrop m (mutex_owner w)\<rparr>) t Outside"
  have "world_invar ?w'"
  proof (rule world_invar_step [OF inv, where t = t and p' = Outside])
    show "position ?w' = (position w)(t := Outside)" by (simp add: move_def)
    show "invar (underlying_lru_cache (cache ?w'))" using i(1) by (simp add: move_def)
    show "in_ticket (cache ?w') t' k' \<longleftrightarrow>
            (if t' = t then (\<exists>m'. registered_for Outside = Some (k', m'))
             else in_ticket (cache w) t' k')" for t' k'
      using i(2) [of t k'] at by (auto simp: move_def)
    show "ticket_mutex (cache ?w') k' = ticket_mutex (cache w) k'" for k'
      by (simp add: move_def)
    show "registered_for Outside = Some (k', m') \<Longrightarrow> ticket_mutex (cache ?w') k' = Some m'" for k' m'
      by simp
    show "fmlookup (mutex_owner ?w') m' = Some t' \<longleftrightarrow>
            (if t' = t then holds Outside = Some m' else fmlookup (mutex_owner w) m' = Some t')" for t' m'
      using i(4) [of m' t] at mine by (auto simp: move_def)
    show "computing Outside = Some k' \<Longrightarrow> \<not> has (underlying_lru_cache (cache ?w')) k'" for k'
      by simp
    show "computing (position w t') = Some k' \<Longrightarrow> \<not> has (underlying_lru_cache (cache ?w')) k'" for t' k'
      using i(5) [of t' k'] by (simp add: move_def)
  qed
  then show ?thesis by (simp add: move_def)
qed

lemma step_safe:
  assumes inv: "world_invar w" and total: "\<forall>k. shared_fn (cache w) k \<noteq> None"
  shows "step w a = Not_enabled \<or>
         (\<exists>ev w'. step w a = Next ev w' \<and> world_invar w' \<and>
            shared_fn (cache w') = shared_fn (cache w))"
proof (cases a)
  case (Request t k)
  show ?thesis
  proof (cases "position w t = Outside")
    case True
    from request_safe [OF inv True, of k] Request True show ?thesis by simp
  next
    case False
    with Request show ?thesis by simp
  qed
next
  case (Advance t)
  show ?thesis
  proof (cases "position w t")
    case Outside
    with Advance show ?thesis by simp
  next
    case (Line_70 k)
    from register_safe [OF inv Line_70] Advance Line_70 show ?thesis by simp
  next
    case (Line_96 k m)
    from lock_safe [OF inv Line_96] Advance Line_96 show ?thesis by simp
  next
    case (Line_97 k m)
    from recheck_safe [OF inv Line_97] Advance Line_97 show ?thesis by simp
  next
    case (Line_110 k m)
    from total have "shared_fn (cache w) k \<noteq> None" by simp
    from compute_safe [OF inv Line_110 this] Advance Line_110 show ?thesis by simp
  next
    case (Line_112 k m v)
    from publish_safe [OF inv Line_112] Advance Line_112 show ?thesis by simp
  next
    case (Line_118 k m v)
    from deregister_safe [OF inv Line_118] Advance Line_118 show ?thesis by simp
  next
    case (Line_119 m v)
    from return_safe [OF inv Line_119] Advance Line_119 show ?thesis by simp
  qed
qed

lemma run_safe:
  assumes "world_invar w" "\<forall>k. shared_fn (cache w) k \<noteq> None"
  shows "run w sched = Stuck \<or> (\<exists>evs w'. run w sched = Finished evs w' \<and> world_invar w')"
  using assms
proof (induction sched arbitrary: w)
  case Nil
  then show ?case by simp
next
  case (Cons a as)
  from step_safe [OF Cons.prems, of a] show ?case
  proof
    assume "step w a = Not_enabled"
    then show ?thesis by simp
  next
    assume "\<exists>ev w'. step w a = Next ev w' \<and> world_invar w' \<and>
              shared_fn (cache w') = shared_fn (cache w)"
    then obtain ev w1 where s: "step w a = Next ev w1" "world_invar w1"
      "shared_fn (cache w1) = shared_fn (cache w)" by blast
    from s(3) Cons.prems(2) have "\<forall>k. shared_fn (cache w1) k \<noteq> None" by simp
    from Cons.IH [OF s(2) this] s(1) show ?thesis by auto
  qed
qed

lemma world_invar_new:
  assumes "new_world f c = Inr w0"
  shows "world_invar w0"
proof -
  from new_world_initial [OF assms] have
    p: "position w0 = (\<lambda>t. Outside)" and o: "mutex_owner w0 = fmempty"
    and r: "is_being_evaluated (cache w0) = fmempty"
    and u: "lru_cache_using_std f c = Inr (underlying_lru_cache (cache w0))"
    by simp_all
  from u have "0 < c" by (auto simp: lru_cache_using_std_def split: if_splits)
  from invar_new [OF this u] have "invar (underlying_lru_cache (cache w0))" .
  then show ?thesis
    unfolding world_invar_def using p o r by (simp add: in_ticket_def)
qed

theorem no_assertion_fails_without_throw:
  assumes "\<forall>k. f k \<noteq> None" "new_world f c = Inr w0"
  shows "run w0 sched \<noteq> Crashed e"
proof -
  have "world_invar w0" using assms(2) by (rule world_invar_new)
  moreover have "\<forall>k. shared_fn (cache w0) k \<noteq> None"
    using assms(1) new_world_initial(5) [OF assms(2)] by simp
  ultimately have "run w0 sched = Stuck \<or> (\<exists>evs w'. run w0 sched = Finished evs w' \<and> world_invar w')"
    by (rule run_safe)
  then show ?thesis by auto
qed

subsection \<open>The hit-rate counters\<close>

lemma fast_path_hit_rate:
  assumes "fast_path c k = Inr (r, c')"
  shows "calls (hit_rate c') = calls (hit_rate c) + 1 \<and>
         hits (hit_rate c') = hits (hit_rate c) + (if r = None then 0 else 1) \<and>
         late_hits (hit_rate c') = late_hits (hit_rate c)"
  using assms
  by (auto simp: fast_path_def Let_def split: if_splits sum.splits prod.splits)

lemma enter_evaluation_hit_rate:
  "enter_evaluation c n t k = Inr (m, c') \<Longrightarrow> hit_rate c' = hit_rate c"
  by (auto simp: enter_evaluation_def Let_def split: if_splits)

lemma done_evaluation_hit_rate:
  "done_evaluation c t k = Inr c' \<Longrightarrow> hit_rate c' = hit_rate c"
  by (auto simp: done_evaluation_def Let_def split: if_splits option.splits)

lemma recheck_hit_rate:
  assumes "recheck c t k = Inr (r, c')"
  shows "calls (hit_rate c') = calls (hit_rate c) \<and>
         hits (hit_rate c') = hits (hit_rate c) \<and>
         late_hits (hit_rate c') = late_hits (hit_rate c) + (if r = None then 0 else 1)"
proof (cases "has (underlying_lru_cache c) k")
  case False
  with assms show ?thesis by (simp add: recheck_def)
next
  case True
  with assms obtain v u c1 where
    "operator_call (underlying_lru_cache c) k = Inr (v, u)"
    "done_evaluation (c\<lparr>underlying_lru_cache := u\<rparr>) t k = Inr c1"
    "r = Some v" "c' = c1\<lparr>hit_rate := (hit_rate c1)\<lparr>late_hits := late_hits (hit_rate c1) + 1\<rparr>\<rparr>"
    by (auto simp: recheck_def Let_def split: sum.splits prod.splits)
  moreover from this(2) have "hit_rate c1 = hit_rate (c\<lparr>underlying_lru_cache := u\<rparr>)"
    by (rule done_evaluation_hit_rate)
  ultimately show ?thesis by simp
qed

lemma publish_hit_rate: "publish c k v = Inr c' \<Longrightarrow> hit_rate c' = hit_rate c"
  by (auto simp: publish_def split: if_splits sum.splits)

text \<open>What a step does: the place of one thread changes, and the counters by the event.\<close>

lemma request_shape:
  assumes "position w t = Outside" "request w t k = Next ev w'"
  shows "\<exists>p. position w' = (position w)(t := p) \<and>
           (if pending (position w t) then 1 else 0) + pending_inc ev =
             (if pending p then 1 else (0::nat)) + pending_dec ev \<and>
           calls (hit_rate (cache w')) = calls (hit_rate (cache w)) + of_nat (calls_inc ev) \<and>
           hits (hit_rate (cache w')) = hits (hit_rate (cache w)) + of_nat (hits_inc ev) \<and>
           late_hits (hit_rate (cache w')) = late_hits (hit_rate (cache w)) + of_nat (late_hits_inc ev)"
proof -
  from assms(2) obtain r c where fp: "fast_path (cache w) k = Inr (r, c)"
    by (auto simp: request_def split: sum.splits)
  note hr = fast_path_hit_rate [OF fp]
  show ?thesis
  proof (cases r)
    case None
    with assms(2) fp have w': "w' = move (w\<lparr>cache := c\<rparr>) t (Line_70 k)" and ev: "ev = Ev_miss"
      by (simp_all add: request_def)
    show ?thesis
      by (rule exI [of _ "Line_70 k"]) (use hr None assms(1) w' ev in \<open>simp add: move_def\<close>)
  next
    case (Some v)
    with assms(2) fp have w': "w' = w\<lparr>cache := c\<rparr>" and ev: "ev = Ev_hit v"
      by (simp_all add: request_def)
    have "position w' = (position w)(t := Outside)" using w' assms(1) by auto
    then show ?thesis
      by (intro exI [of _ Outside]) (use hr Some assms(1) w' ev in simp)
  qed
qed

lemma advance_shape:
  assumes "advance w t (position w t) = Next ev w'"
  shows "\<exists>p. position w' = (position w)(t := p) \<and>
           (if pending (position w t) then 1 else 0) + pending_inc ev =
             (if pending p then 1 else (0::nat)) + pending_dec ev \<and>
           calls (hit_rate (cache w')) = calls (hit_rate (cache w)) + of_nat (calls_inc ev) \<and>
           hits (hit_rate (cache w')) = hits (hit_rate (cache w)) + of_nat (hits_inc ev) \<and>
           late_hits (hit_rate (cache w')) = late_hits (hit_rate (cache w)) + of_nat (late_hits_inc ev)"
proof (cases "position w t")
  case Outside
  with assms show ?thesis by simp
next
  case (Line_70 k)
  with assms obtain m c where ee: "enter_evaluation (cache w) (mutexes_allocated w) t k = Inr (m, c)"
    by (auto split: sum.splits)
  note hr = enter_evaluation_hit_rate [OF ee]
  from assms Line_70 ee have ev: "ev = Ev_registered"
    and w': "position w' = (position w)(t := Line_96 k m)" "cache w' = c"
    by (auto simp: move_def)
  show ?thesis
    by (rule exI [of _ "Line_96 k m"]) (use hr Line_70 w' ev in simp)
next
  case (Line_96 k m)
  with assms have ev: "ev = Ev_locked"
    and w': "position w' = (position w)(t := Line_97 k m)" "cache w' = cache w"
    by (auto simp: move_def split: option.splits)
  show ?thesis
    by (rule exI [of _ "Line_97 k m"]) (use Line_96 w' ev in simp)
next
  case (Line_97 k m)
  with assms obtain r c where rc: "recheck (cache w) t k = Inr (r, c)"
    by (auto split: sum.splits)
  note hr = recheck_hit_rate [OF rc]
  show ?thesis
  proof (cases r)
    case None
    with assms Line_97 rc have ev: "ev = Ev_recheck_miss"
      and w': "position w' = (position w)(t := Line_110 k m)" "cache w' = cache w"
      by (auto simp: move_def)
    show ?thesis
      by (rule exI [of _ "Line_110 k m"]) (use Line_97 w' ev in simp)
  next
    case (Some v)
    with assms Line_97 rc have ev: "ev = Ev_late_hit v"
      and w': "position w' = (position w)(t := Line_119 m v)" "cache w' = c"
      by (auto simp: move_def)
    show ?thesis
      by (rule exI [of _ "Line_119 m v"]) (use hr Some Line_97 w' ev in simp)
  qed
next
  case (Line_110 k m)
  show ?thesis
  proof (cases "shared_fn (cache w) k")
    case None
    with assms Line_110 have ev: "ev = Ev_threw"
      and w': "position w' = (position w)(t := Outside)" "cache w' = cache w"
      by (auto simp: move_def)
    show ?thesis
      by (rule exI [of _ Outside]) (use Line_110 w' ev in simp)
  next
    case (Some v)
    with assms Line_110 have ev: "ev = Ev_computed v"
      and w': "position w' = (position w)(t := Line_112 k m v)" "cache w' = cache w"
      by (auto simp: move_def)
    show ?thesis
      by (rule exI [of _ "Line_112 k m v"]) (use Line_110 w' ev in simp)
  qed
next
  case (Line_112 k m v)
  with assms obtain c where pb: "publish (cache w) k v = Inr c"
    by (auto split: sum.splits)
  note hr = publish_hit_rate [OF pb]
  from assms Line_112 pb have ev: "ev = Ev_published"
    and w': "position w' = (position w)(t := Line_118 k m v)" "cache w' = c"
    by (auto simp: move_def)
  show ?thesis
    by (rule exI [of _ "Line_118 k m v"]) (use hr Line_112 w' ev in simp)
next
  case (Line_118 k m v)
  with assms obtain c where de: "done_evaluation (cache w) t k = Inr c"
    by (auto split: sum.splits)
  note hr = done_evaluation_hit_rate [OF de]
  from assms Line_118 de have ev: "ev = Ev_deregistered"
    and w': "position w' = (position w)(t := Line_119 m v)" "cache w' = c"
    by (auto simp: move_def)
  show ?thesis
    by (rule exI [of _ "Line_119 m v"]) (use hr Line_118 w' ev in simp)
next
  case (Line_119 m v)
  with assms have ev: "ev = Ev_returned v"
    and w': "position w' = (position w)(t := Outside)" "cache w' = cache w"
    by (auto simp: move_def)
  show ?thesis
    by (rule exI [of _ Outside]) (use Line_119 w' ev in simp)
qed

lemma step_shape:
  assumes "step w a = Next ev w'"
  shows "\<exists>t p. position w' = (position w)(t := p) \<and>
           (if pending (position w t) then 1 else 0) + pending_inc ev =
             (if pending p then 1 else (0::nat)) + pending_dec ev \<and>
           calls (hit_rate (cache w')) = calls (hit_rate (cache w)) + of_nat (calls_inc ev) \<and>
           hits (hit_rate (cache w')) = hits (hit_rate (cache w)) + of_nat (hits_inc ev) \<and>
           late_hits (hit_rate (cache w')) = late_hits (hit_rate (cache w)) + of_nat (late_hits_inc ev)"
proof (cases a)
  case (Request t k)
  with assms have "position w t = Outside" "request w t k = Next ev w'"
    by (auto split: if_splits)
  from request_shape [OF this] show ?thesis by blast
next
  case (Advance t)
  with assms have "advance w t (position w t) = Next ev w'" by simp
  from advance_shape [OF this] show ?thesis by blast
qed

lemma card_pending_update:
  assumes "finite {t'. pending (position w t')}"
  shows "finite {t'. pending (((position w)(t := p)) t')} \<and>
         card {t'. pending (((position w)(t := p)) t')} + (if pending (position w t) then 1 else 0) =
         card {t'. pending (position w t')} + (if pending p then 1 else 0)"
proof -
  let ?P = "{t'. pending (position w t')}"
  have eq: "{t'. pending (((position w)(t := p)) t')} = (if pending p then insert t ?P else ?P - {t})"
    by auto
  have mem: "t \<in> ?P \<longleftrightarrow> pending (position w t)" by simp
  show ?thesis
  proof (cases "pending p")
    case True
    then show ?thesis using assms eq mem by (simp add: card_insert_if)
  next
    case False
    show ?thesis
    proof (cases "pending (position w t)")
      case True
      then have "t \<in> ?P" by simp
      then have "card (?P - {t}) + 1 = card ?P"
        using card_Suc_Diff1 [OF assms, of t] by linarith
      with assms eq False True show ?thesis by simp
    next
      case f: False
      then have "?P - {t} = ?P" by auto
      with assms eq False f show ?thesis by simp
    qed
  qed
qed

lemma step_pending:
  assumes "finite {t'. pending (position w t')}" "step w a = Next ev w'"
  shows "finite {t'. pending (position w' t')} \<and>
         card {t'. pending (position w t')} + pending_inc ev =
         card {t'. pending (position w' t')} + pending_dec ev"
proof -
  from step_shape [OF assms(2)] obtain t p where
    pos: "position w' = (position w)(t := p)" and
    bal: "(if pending (position w t) then 1 else 0) + pending_inc ev =
             (if pending p then 1 else (0::nat)) + pending_dec ev"
    by blast
  from card_pending_update [OF assms(1), of t p] pos have
    f: "finite {t'. pending (position w' t')}" and
    c: "card {t'. pending (position w' t')} + (if pending (position w t) then 1 else 0) =
         card {t'. pending (position w t')} + (if pending p then 1 else 0)"
    by simp_all
  from c bal have "card {t'. pending (position w t')} + pending_inc ev =
         card {t'. pending (position w' t')} + pending_dec ev"
    by (simp split: if_splits)
  with f show ?thesis by simp
qed

lemma run_pending:
  assumes "run w sched = Finished evs w'" "finite {t'. pending (position w t')}"
  shows "finite {t'. pending (position w' t')} \<and>
         card {t'. pending (position w t')} + sum_list (map pending_inc evs) =
         card {t'. pending (position w' t')} + sum_list (map pending_dec evs)"
  using assms
proof (induction sched arbitrary: w evs)
  case Nil
  then show ?case by simp
next
  case (Cons a as)
  from Cons.prems(1) obtain ev w1 evs1 where
    s: "step w a = Next ev w1" and r: "run w1 as = Finished evs1 w'" and e: "evs = ev # evs1"
    by (rule run_Cons_Finished)
  from step_pending [OF Cons.prems(2) s] have
    f1: "finite {t'. pending (position w1 t')}" and
    a1: "card {t'. pending (position w t')} + pending_inc ev =
         card {t'. pending (position w1 t')} + pending_dec ev"
    by simp_all
  from Cons.IH [OF r f1] a1 e show ?case by simp
qed

lemma run_counters:
  assumes "run w sched = Finished evs w'"
  shows "length evs = length sched \<and>
         calls (hit_rate (cache w')) =
           calls (hit_rate (cache w)) + of_nat (sum_list (map calls_inc evs)) \<and>
         hits (hit_rate (cache w')) =
           hits (hit_rate (cache w)) + of_nat (sum_list (map hits_inc evs)) \<and>
         late_hits (hit_rate (cache w')) =
           late_hits (hit_rate (cache w)) + of_nat (sum_list (map late_hits_inc evs))"
  using assms
proof (induction sched arbitrary: w evs)
  case Nil
  then show ?case by simp
next
  case (Cons a as)
  from Cons.prems obtain ev w1 evs1 where
    s: "step w a = Next ev w1" and r: "run w1 as = Finished evs1 w'" and e: "evs = ev # evs1"
    by (rule run_Cons_Finished)
  from step_shape [OF s] have
    "calls (hit_rate (cache w1)) = calls (hit_rate (cache w)) + of_nat (calls_inc ev)"
    "hits (hit_rate (cache w1)) = hits (hit_rate (cache w)) + of_nat (hits_inc ev)"
    "late_hits (hit_rate (cache w1)) = late_hits (hit_rate (cache w)) + of_nat (late_hits_inc ev)"
    by blast+
  with Cons.IH [OF r] e show ?case by (simp add: add.assoc)
qed

lemma events_calls: "sum_list (map calls_inc evs) =
    sum_list (map hits_inc evs) + sum_list (map pending_inc evs)"
proof (induction evs)
  case Nil
  then show ?case by simp
next
  case (Cons ev evs)
  then show ?case by (cases ev) simp_all
qed

lemma events_ended: "sum_list (map pending_dec evs) =
    sum_list (map late_hits_inc evs) + count_list evs Ev_published + count_list evs Ev_threw"
proof (induction evs)
  case Nil
  then show ?case by simp
next
  case (Cons ev evs)
  then show ?case by (cases ev) simp_all
qed

lemma events_le_length:
  "sum_list (map calls_inc evs) \<le> length evs"
  "sum_list (map hits_inc evs) \<le> length evs"
  "sum_list (map late_hits_inc evs) \<le> length evs"
proof (induction evs)
  case Nil
  case 1 show ?case by simp
  case 2 show ?case by simp
  case 3 show ?case by simp
next
  case (Cons ev evs)
  case 1 from Cons(1) show ?case by (cases ev) simp_all
  case 2 from Cons(2) show ?case by (cases ev) simp_all
  case 3 from Cons(3) show ?case by (cases ev) simp_all
qed

lemma events_mono:
  "sum_list (map calls_inc evs1) \<le> sum_list (map calls_inc (evs1 @ evs2))"
  "sum_list (map hits_inc evs1) \<le> sum_list (map hits_inc (evs1 @ evs2))"
  "sum_list (map late_hits_inc evs1) \<le> sum_list (map late_hits_inc (evs1 @ evs2))"
  by simp_all

lemma run_split:
  assumes "run w (pre @ post) = Finished evs w'" "run w pre = Finished evs1 w1"
  shows "\<exists>evs2. run w1 post = Finished evs2 w' \<and> evs = evs1 @ evs2"
  using assms by (auto simp: run_append split: run_result.splits)

lemma unat_count:
  "n < 2 ^ 64 \<Longrightarrow> unat (of_nat n :: 64 word) = n"
  by (rule of_nat_inverse [OF refl]) simp

lemma hit_loop:
  assumes "invar (underlying_lru_cache (cache w))"
    "fmlookup (key_to_value (underlying_lru_cache (cache w))) k = Some (v, it)"
    "position w t = Outside"
  shows "\<exists>w'. run w (replicate n (Request t k)) = Finished (replicate n (Ev_hit v)) w' \<and>
           position w' = position w \<and>
           calls (hit_rate (cache w')) = calls (hit_rate (cache w)) + of_nat n \<and>
           hits (hit_rate (cache w')) = hits (hit_rate (cache w)) + of_nat n \<and>
           late_hits (hit_rate (cache w')) = late_hits (hit_rate (cache w)) \<and>
           invar (underlying_lru_cache (cache w')) \<and>
           fmlookup (key_to_value (underlying_lru_cache (cache w'))) k = Some (v, it)"
  using assms
proof (induction n arbitrary: w)
  case 0
  then show ?case by simp
next
  case (Suc n)
  let ?s = "underlying_lru_cache (cache w)"
  let ?u = "?s\<lparr>key_tracker := filter (\<lambda>n. snd n \<noteq> k) (key_tracker ?s) @ [(it, k)]\<rparr>"
  let ?h = "(hit_rate (cache w))\<lparr>calls := calls (hit_rate (cache w)) + 1,
              hits := hits (hit_rate (cache w)) + 1\<rparr>"
  let ?w1 = "w\<lparr>cache := (cache w)\<lparr>hit_rate := ?h, underlying_lru_cache := ?u\<rparr>\<rparr>"
  have oc: "operator_call ?s k = Inr (v, ?u)"
    using Suc.prems(1,2) by (rule operator_call_hit)
  have iu: "invar ?u" using Suc.prems(1,2) by (rule invar_moved)
  have "has ?s k" using Suc.prems(2) by (simp add: has_def)
  with oc have st: "step w (Request t k) = Next (Ev_hit v) ?w1"
    using Suc.prems(3) by (simp add: request_def fast_path_def Let_def)
  have "invar (underlying_lru_cache (cache ?w1))" using iu by simp
  moreover have "fmlookup (key_to_value (underlying_lru_cache (cache ?w1))) k = Some (v, it)"
    using Suc.prems(2) by simp
  moreover have "position ?w1 t = Outside" using Suc.prems(3) by simp
  ultimately obtain w' where w':
    "run ?w1 (replicate n (Request t k)) = Finished (replicate n (Ev_hit v)) w'"
    "position w' = position ?w1"
    "calls (hit_rate (cache w')) = calls (hit_rate (cache ?w1)) + of_nat n"
    "hits (hit_rate (cache w')) = hits (hit_rate (cache ?w1)) + of_nat n"
    "late_hits (hit_rate (cache w')) = late_hits (hit_rate (cache ?w1))"
    "invar (underlying_lru_cache (cache w'))"
    "fmlookup (key_to_value (underlying_lru_cache (cache w'))) k = Some (v, it)"
    using Suc.IH [of ?w1] by blast
  have "run w (replicate (Suc n) (Request t k)) = Finished (replicate (Suc n) (Ev_hit v)) w'"
    using st w'(1) by simp
  moreover have "position w' = position w" using w'(2) by simp
  moreover have "calls (hit_rate (cache w')) = calls (hit_rate (cache w)) + of_nat (Suc n)"
    "hits (hit_rate (cache w')) = hits (hit_rate (cache w)) + of_nat (Suc n)"
    "late_hits (hit_rate (cache w')) = late_hits (hit_rate (cache w))"
    using w'(3,4,5) by simp_all
  ultimately show ?case using w'(6,7) by blast
qed

text \<open>
  Claim C4, as the code has it. Take any run of the threads from a new cache, of any
  schedule. Once no thread is inside \<^verbatim>\<open>operator()\<close>, \<^verbatim>\<open>calls\<close> is the sum of
  \<^verbatim>\<open>hits\<close>, \<^verbatim>\<open>late_hits\<close>, the number of computed values that were published and
  the number of calls that \<^verbatim>\<open>_fn\<close> left by an exception: in the arithmetic of
  \<^verbatim>\<open>size_t\<close> always, and as plain numbers when the run has fewer than \<open>2^64\<close> steps.
  Without a call left by an exception this is the identity of the claim. In a run of fewer
  than \<open>2^64\<close> steps no counter is ever larger than it is at the end of the run.
\<close>

theorem hit_rate_accounting:
  assumes "new_world f c = Inr w0" "run w0 sched = Finished evs w"
  shows "((\<forall>t. position w t = Outside) \<longrightarrow>
            calls (hit_rate (cache w)) =
              hits (hit_rate (cache w)) + late_hits (hit_rate (cache w)) +
              of_nat (count_list evs Ev_published) + of_nat (count_list evs Ev_threw)) \<and>
         ((\<forall>t. position w t = Outside) \<and> length sched < 2 ^ 64 \<longrightarrow>
            unat (calls (hit_rate (cache w))) =
              unat (hits (hit_rate (cache w))) + unat (late_hits (hit_rate (cache w))) +
              count_list evs Ev_published + count_list evs Ev_threw) \<and>
         (length sched < 2 ^ 64 \<longrightarrow>
            (\<forall>pre post evs1 w1. sched = pre @ post \<and> run w0 pre = Finished evs1 w1 \<longrightarrow>
               calls (hit_rate (cache w1)) \<le> calls (hit_rate (cache w)) \<and>
               hits (hit_rate (cache w1)) \<le> hits (hit_rate (cache w)) \<and>
               late_hits (hit_rate (cache w1)) \<le> late_hits (hit_rate (cache w))))"
proof -
  note init = new_world_initial(1,2) [OF assms(1)]
  have fin: "finite {t'. pending (position w0 t')}" using init(1) by simp
  from run_counters [OF assms(2)] init(2) have
    len: "length evs = length sched" and
    c: "calls (hit_rate (cache w)) = of_nat (sum_list (map calls_inc evs))" and
    h: "hits (hit_rate (cache w)) = of_nat (sum_list (map hits_inc evs))" and
    l: "late_hits (hit_rate (cache w)) = of_nat (sum_list (map late_hits_inc evs))"
    by simp_all
  have quiet: "sum_list (map calls_inc evs) =
      sum_list (map hits_inc evs) + sum_list (map late_hits_inc evs) +
      count_list evs Ev_published + count_list evs Ev_threw"
    if q: "\<forall>t. position w t = Outside"
  proof -
    from q have "{t'. pending (position w t')} = {}" by simp
    with run_pending [OF assms(2) fin] init(1)
    have "sum_list (map pending_inc evs) = sum_list (map pending_dec evs)" by simp
    then show ?thesis by (simp add: events_calls [of evs] events_ended [of evs])
  qed
  have a: "calls (hit_rate (cache w)) =
              hits (hit_rate (cache w)) + late_hits (hit_rate (cache w)) +
              of_nat (count_list evs Ev_published) + of_nat (count_list evs Ev_threw)"
    if q: "\<forall>t. position w t = Outside"
    using quiet [OF q] c h l by simp
  have b: "unat (calls (hit_rate (cache w))) =
              unat (hits (hit_rate (cache w))) + unat (late_hits (hit_rate (cache w))) +
              count_list evs Ev_published + count_list evs Ev_threw"
    if q: "\<forall>t. position w t = Outside" and short: "length sched < 2 ^ 64"
  proof -
    from short len events_le_length [of evs] have
      "sum_list (map calls_inc evs) < 2 ^ 64" "sum_list (map hits_inc evs) < 2 ^ 64"
      "sum_list (map late_hits_inc evs) < 2 ^ 64"
      by linarith+
    then have "unat (calls (hit_rate (cache w))) = sum_list (map calls_inc evs)"
      "unat (hits (hit_rate (cache w))) = sum_list (map hits_inc evs)"
      "unat (late_hits (hit_rate (cache w))) = sum_list (map late_hits_inc evs)"
      using c h l by (simp_all add: unat_count)
    with quiet [OF q] show ?thesis by simp
  qed
  have m: "calls (hit_rate (cache w1)) \<le> calls (hit_rate (cache w)) \<and>
           hits (hit_rate (cache w1)) \<le> hits (hit_rate (cache w)) \<and>
           late_hits (hit_rate (cache w1)) \<le> late_hits (hit_rate (cache w))"
    if short: "length sched < 2 ^ 64" and sp: "sched = pre @ post"
      and r1: "run w0 pre = Finished evs1 w1" for pre post evs1 w1
  proof -
    from assms(2) sp have "run w0 (pre @ post) = Finished evs w" by simp
    from run_split [OF this r1] obtain evs2 where e: "evs = evs1 @ evs2" by blast
    from run_counters [OF r1] init(2) have
      c1: "calls (hit_rate (cache w1)) = of_nat (sum_list (map calls_inc evs1))" and
      h1: "hits (hit_rate (cache w1)) = of_nat (sum_list (map hits_inc evs1))" and
      l1: "late_hits (hit_rate (cache w1)) = of_nat (sum_list (map late_hits_inc evs1))"
      by simp_all
    from short len events_le_length [of evs] have big:
      "sum_list (map calls_inc evs) < 2 ^ 64" "sum_list (map hits_inc evs) < 2 ^ 64"
      "sum_list (map late_hits_inc evs) < 2 ^ 64"
      by linarith+
    from events_mono [of evs1 evs2] e have le:
      "sum_list (map calls_inc evs1) \<le> sum_list (map calls_inc evs)"
      "sum_list (map hits_inc evs1) \<le> sum_list (map hits_inc evs)"
      "sum_list (map late_hits_inc evs1) \<le> sum_list (map late_hits_inc evs)"
      by simp_all
    from big le have small:
      "sum_list (map calls_inc evs1) < 2 ^ 64" "sum_list (map hits_inc evs1) < 2 ^ 64"
      "sum_list (map late_hits_inc evs1) < 2 ^ 64"
      by linarith+
    show ?thesis
      unfolding word_le_nat_alt c h l c1 h1 l1
      using big small le by (simp add: unat_count)
  qed
  from a b m show ?thesis by blast
qed

theorem hit_rate_accounting_witness:
  "\<exists>w0 evs1 w1 evs2 w.
     new_world (\<lambda>k::nat. if k = 9 then None else Some (10 * k :: nat)) 2 = Inr w0 \<and>
     run w0 ([Request 1 7, Request 2 7, Advance 1, Advance 2, Advance 1, Advance 1, Advance 1,
              Advance 1, Advance 1, Advance 1] @
             [Advance 2, Advance 2, Advance 2, Request 1 7,
              Request 2 9, Advance 2, Advance 2, Advance 2, Advance 2])
       = Finished (evs1 @ evs2) w \<and>
     run w0 [Request 1 7, Request 2 7, Advance 1, Advance 2, Advance 1, Advance 1, Advance 1,
             Advance 1, Advance 1, Advance 1] = Finished evs1 w1 \<and>
     (\<forall>t. position w t = Outside) \<and>
     length ([Request 1 7, Request 2 7, Advance 1, Advance 2, Advance 1, Advance 1, Advance 1,
              Advance 1, Advance 1, Advance 1] @
             [Advance 2, Advance 2, Advance 2, Request 1 (7::nat),
              Request 2 9, Advance 2, Advance 2, Advance 2, Advance 2]) < (2::nat) ^ 64 \<and>
     hit_rate (cache w1) = \<lparr>calls = 2, hits = 0, late_hits = 0\<rparr> \<and>
     hit_rate (cache w) = \<lparr>calls = 4, hits = 1, late_hits = 1\<rparr> \<and>
     count_list (evs1 @ evs2) Ev_published = 1 \<and> count_list (evs1 @ evs2) Ev_threw = 1 \<and>
     calls (hit_rate (cache w)) =
       hits (hit_rate (cache w)) + late_hits (hit_rate (cache w)) +
       of_nat (count_list (evs1 @ evs2) Ev_published) + of_nat (count_list (evs1 @ evs2) Ev_threw) \<and>
     unat (calls (hit_rate (cache w))) =
       unat (hits (hit_rate (cache w))) + unat (late_hits (hit_rate (cache w))) +
       count_list (evs1 @ evs2) Ev_published + count_list (evs1 @ evs2) Ev_threw \<and>
     calls (hit_rate (cache w1)) \<le> calls (hit_rate (cache w)) \<and>
     hits (hit_rate (cache w1)) \<le> hits (hit_rate (cache w)) \<and>
     late_hits (hit_rate (cache w1)) \<le> late_hits (hit_rate (cache w))"
proof -
  let ?pre = "[Request 1 (7::nat), Request 2 7, Advance 1, Advance 2, Advance 1, Advance 1,
               Advance 1, Advance 1, Advance 1, Advance 1]"
  let ?post = "[Advance 2, Advance 2, Advance 2, Request 1 (7::nat),
                Request 2 9, Advance 2, Advance 2, Advance 2, Advance 2]"
  obtain w0 where w0: "new_world (\<lambda>k::nat. if k = 9 then None else Some (10 * k :: nat)) 2 = Inr w0"
    by (simp add: world_eval)
  have "\<exists>evs1 w1 evs2 w.
     run w0 ?pre = Finished evs1 w1 \<and> run w1 ?post = Finished evs2 w \<and>
     (\<forall>t. position w t = Outside) \<and>
     evs1 = [Ev_miss, Ev_miss, Ev_registered, Ev_registered, Ev_locked, Ev_recheck_miss,
             Ev_computed 70, Ev_published, Ev_deregistered, Ev_returned 70] \<and>
     evs2 = [Ev_locked, Ev_late_hit 70, Ev_returned 70, Ev_hit 70,
             Ev_miss, Ev_registered, Ev_locked, Ev_recheck_miss, Ev_threw] \<and>
     hit_rate (cache w1) = \<lparr>calls = 2, hits = 0, late_hits = 0\<rparr> \<and>
     hit_rate (cache w) = \<lparr>calls = 4, hits = 1, late_hits = 1\<rparr>"
    using w0 by (auto simp: world_eval)
  then obtain evs1 w1 evs2 w where r:
    "run w0 ?pre = Finished evs1 w1" "run w1 ?post = Finished evs2 w"
    "\<forall>t. position w t = Outside"
    "evs1 = [Ev_miss, Ev_miss, Ev_registered, Ev_registered, Ev_locked, Ev_recheck_miss,
             Ev_computed 70, Ev_published, Ev_deregistered, Ev_returned 70]"
    "evs2 = [Ev_locked, Ev_late_hit 70, Ev_returned 70, Ev_hit 70,
             Ev_miss, Ev_registered, Ev_locked, Ev_recheck_miss, Ev_threw]"
    "hit_rate (cache w1) = \<lparr>calls = 2, hits = 0, late_hits = 0\<rparr>"
    "hit_rate (cache w) = \<lparr>calls = 4, hits = 1, late_hits = 1\<rparr>"
    by blast
  have whole: "run w0 (?pre @ ?post) = Finished (evs1 @ evs2) w"
    using r(1,2) by (simp only: run_append run_result.case)
  have short: "length (?pre @ ?post) < (2::nat) ^ 64" by simp
  from r(4,5) have e: "count_list (evs1 @ evs2) Ev_published = 1"
    "count_list (evs1 @ evs2) Ev_threw = 1"
    by simp_all
  note t = hit_rate_accounting [OF w0 whole]
  from t r(3) have a: "calls (hit_rate (cache w)) =
       hits (hit_rate (cache w)) + late_hits (hit_rate (cache w)) +
       of_nat (count_list (evs1 @ evs2) Ev_published) + of_nat (count_list (evs1 @ evs2) Ev_threw)"
    by blast
  from t r(3) short have b: "unat (calls (hit_rate (cache w))) =
       unat (hits (hit_rate (cache w))) + unat (late_hits (hit_rate (cache w))) +
       count_list (evs1 @ evs2) Ev_published + count_list (evs1 @ evs2) Ev_threw"
    by blast
  from t short r(1) have m: "calls (hit_rate (cache w1)) \<le> calls (hit_rate (cache w)) \<and>
     hits (hit_rate (cache w1)) \<le> hits (hit_rate (cache w)) \<and>
     late_hits (hit_rate (cache w1)) \<le> late_hits (hit_rate (cache w))"
    by blast
  show ?thesis
    by (intro exI [of _ w0] exI [of _ evs1] exI [of _ w1] exI [of _ evs2] exI [of _ w] conjI)
       (use w0 whole r(1,3,6,7) short e a b m in blast)+
qed

text \<open>
  The claim without these two provisos fails. After a hit, a published computation and a
  call that \<^verbatim>\<open>_fn\<close> left by an exception, every call is over and \<^verbatim>\<open>calls\<close> is 3,
  one more than hits, late hits and published computations together. And the
  \<open>2^64\<close>-th call takes \<^verbatim>\<open>calls\<close> from \<open>2^64 - 1\<close> to 0.
\<close>

theorem hit_rate_accounting_counterexample:
  "(\<exists>w0 evs w.
      new_world (\<lambda>k::nat. if k = 7 then None else Some (10 * k :: nat)) 2 = Inr w0 \<and>
      run w0 [Request 1 5, Advance 1, Advance 1, Advance 1, Advance 1, Advance 1, Advance 1,
              Advance 1, Request 1 5, Request 1 7, Advance 1, Advance 1, Advance 1, Advance 1]
        = Finished evs w \<and>
      (\<forall>t. position w t = Outside) \<and>
      hit_rate (cache w) = \<lparr>calls = 3, hits = 1, late_hits = 0\<rparr> \<and>
      count_list evs Ev_published = 1 \<and>
      unat (calls (hit_rate (cache w))) \<noteq>
        unat (hits (hit_rate (cache w))) + unat (late_hits (hit_rate (cache w))) +
        count_list evs Ev_published) \<and>
   (\<exists>w0 evs1 w1 evs2 w2.
      new_world (\<lambda>k::nat. Some (10 * k :: nat)) 2 = Inr w0 \<and>
      run w0 ([Request 1 7, Advance 1, Advance 1, Advance 1, Advance 1, Advance 1, Advance 1,
               Advance 1] @ replicate 18446744073709551614 (Request 1 7)) = Finished evs1 w1 \<and>
      run w1 [Request 1 7] = Finished evs2 w2 \<and>
      calls (hit_rate (cache w1)) = 18446744073709551615 \<and>
      calls (hit_rate (cache w2)) = 0 \<and>
      \<not> calls (hit_rate (cache w1)) \<le> calls (hit_rate (cache w2)))"
proof (rule conjI)
  show "\<exists>w0 evs w.
      new_world (\<lambda>k::nat. if k = 7 then None else Some (10 * k :: nat)) 2 = Inr w0 \<and>
      run w0 [Request 1 5, Advance 1, Advance 1, Advance 1, Advance 1, Advance 1, Advance 1,
              Advance 1, Request 1 5, Request 1 7, Advance 1, Advance 1, Advance 1, Advance 1]
        = Finished evs w \<and>
      (\<forall>t. position w t = Outside) \<and>
      hit_rate (cache w) = \<lparr>calls = 3, hits = 1, late_hits = 0\<rparr> \<and>
      count_list evs Ev_published = 1 \<and>
      unat (calls (hit_rate (cache w))) \<noteq>
        unat (hits (hit_rate (cache w))) + unat (late_hits (hit_rate (cache w))) +
        count_list evs Ev_published"
    by (auto simp: world_eval)
next
  let ?f = "\<lambda>k::nat. Some (10 * k :: nat)"
  let ?pre = "[Request 1 (7::nat), Advance 1, Advance 1, Advance 1, Advance 1, Advance 1,
               Advance 1, Advance 1]"
  obtain w0 where w0: "new_world ?f 2 = Inr w0"
    by (simp add: world_eval)
  have "\<exists>evs w. run w0 ?pre = Finished evs w \<and> position w 1 = Outside \<and>
          fmlookup (key_to_value (underlying_lru_cache (cache w))) 7 = Some (70, 1) \<and>
          hit_rate (cache w) = \<lparr>calls = 1, hits = 0, late_hits = 0\<rparr>"
    using w0 by (auto simp: world_eval)
  then obtain evsa wa where a: "run w0 ?pre = Finished evsa wa" "position wa 1 = Outside"
    "fmlookup (key_to_value (underlying_lru_cache (cache wa))) 7 = Some (70, 1)"
    "hit_rate (cache wa) = \<lparr>calls = 1, hits = 0, late_hits = 0\<rparr>"
    by blast
  have "world_invar w0" using w0 by (rule world_invar_new)
  moreover have "\<forall>k. shared_fn (cache w0) k \<noteq> None"
    using new_world_initial(5) [OF w0] by simp
  ultimately have "run w0 ?pre = Stuck \<or> (\<exists>evs w'. run w0 ?pre = Finished evs w' \<and> world_invar w')"
    by (rule run_safe)
  with a(1) have "world_invar wa" by auto
  then have ia: "invar (underlying_lru_cache (cache wa))" by (rule world_invarD(1))
  from hit_loop [OF ia a(3) a(2), of 18446744073709551614] obtain w1 where w1:
    "run wa (replicate 18446744073709551614 (Request 1 7)) =
       Finished (replicate 18446744073709551614 (Ev_hit 70)) w1"
    "position w1 = position wa"
    "calls (hit_rate (cache w1)) = calls (hit_rate (cache wa)) + of_nat 18446744073709551614"
    "invar (underlying_lru_cache (cache w1))"
    "fmlookup (key_to_value (underlying_lru_cache (cache w1))) 7 = Some (70, 1)"
    by blast
  from w1(2) a(2) have o1: "position w1 1 = Outside" by simp
  from hit_loop [OF w1(4) w1(5) o1, of "Suc 0"] obtain w2 where w2:
    "run w1 [Request 1 7] = Finished [Ev_hit 70] w2"
    "calls (hit_rate (cache w2)) = calls (hit_rate (cache w1)) + of_nat (Suc 0)"
    by auto
  have whole: "run w0 (?pre @ replicate 18446744073709551614 (Request 1 7)) =
      Finished (evsa @ replicate 18446744073709551614 (Ev_hit 70)) w1"
    using a(1) w1(1) by (simp only: run_append run_result.case)
  have c1: "calls (hit_rate (cache w1)) = 18446744073709551615"
    using w1(3) a(4) by simp
  have c2: "calls (hit_rate (cache w2)) = 0"
    using w2(2) c1 by simp
  have "\<not> calls (hit_rate (cache w1)) \<le> calls (hit_rate (cache w2))"
    unfolding c1 c2 by simp
  with w0 whole w2(1) c1 c2 show "\<exists>w0 evs1 w1 evs2 w2.
      new_world ?f 2 = Inr w0 \<and>
      run w0 (?pre @ replicate 18446744073709551614 (Request 1 7)) = Finished evs1 w1 \<and>
      run w1 [Request 1 7] = Finished evs2 w2 \<and>
      calls (hit_rate (cache w1)) = 18446744073709551615 \<and>
      calls (hit_rate (cache w2)) = 0 \<and>
      \<not> calls (hit_rate (cache w1)) \<le> calls (hit_rate (cache w2))"
    by blast
qed

subsection \<open>A compute function that throws\<close>

text \<open>
  Claim C1. The cached function throws on key 7. Thread 1 asks for key 7: the exception leaves
  \<^verbatim>\<open>operator()\<close>, nothing is entered for the key and the mutex of the key is free again,
  but \<^verbatim>\<open>done\<close> was not called: the ticket of the key is still in the registry with
  thread 1 in \<^verbatim>\<open>active_threads\<close>. When thread 1 asks again, the assertion of line 82
  fails (it cannot fail while the function returns, by \<open>no_assertion_fails_without_throw\<close>);
  when thread 2 asks instead, it is not blocked and calls the function afresh, and the
  ticket stays, now with both threads.
\<close>

theorem failed_compute_leaves_ticket:
  "\<exists>w0 evs w.
     new_world (\<lambda>k::nat. if k = 7 then None else Some (10 * k :: nat)) 2 = Inr w0 \<and>
     run w0 [Request 1 7, Advance 1, Advance 1, Advance 1, Advance 1] = Finished evs w \<and>
     evs = [Ev_miss, Ev_registered, Ev_locked, Ev_recheck_miss, Ev_threw] \<and>
     position w 1 = Outside \<and>
     mutex_owner w = fmempty \<and>
     \<not> has (underlying_lru_cache (cache w)) 7 \<and>
     fmlookup (is_being_evaluated (cache w)) 7 = Some \<lparr>mutex = 0, active_threads = {1}\<rparr> \<and>
     run w [Request 1 7, Advance 1] = Crashed AssertionFailed \<and>
     (\<exists>evs' w'.
        run w [Request 2 7, Advance 2, Advance 2, Advance 2, Advance 2] = Finished evs' w' \<and>
        evs' = [Ev_miss, Ev_registered, Ev_locked, Ev_recheck_miss, Ev_threw] \<and>
        fmlookup (is_being_evaluated (cache w')) 7 =
          Some \<lparr>mutex = 0, active_threads = {1, 2}\<rparr>)"
  by (auto simp: world_eval fmdrop_fmupd_same)

end
